theory Spec2Isabelle
  imports Main "HOL-Library.Word" "HOL-Library.AList" "HOL-Library.Sublist"
begin

unbundle bit_operations_syntax

section \<open>Content fingerprint: MD5 as computed by \<^verbatim>\<open>hashlib.md5\<close>\<close>

text \<open>
  \<^verbatim>\<open>calculate_hash\<close> (app.py, lines 11-24) feeds a file to a \<^verbatim>\<open>hashlib.md5()\<close> object in
  chunks of 4096 bytes and returns the hexadecimal digest. The digest function is MD5
  (RFC 1321); it is modelled bit for bit on 32-bit words, so that digests of concrete
  byte strings can be computed.
\<close>

type_synonym byte = "8 word"
type_synonym word32 = "32 word"

text \<open>The table \<open>K[i] = floor (2^32 * abs (sin (i + 1)))\<close> and the per-round shift amounts.\<close>

definition md5_K :: "word32 list" where
  "md5_K = [0xd76aa478, 0xe8c7b756, 0x242070db, 0xc1bdceee, 0xf57c0faf, 0x4787c62a, 0xa8304613, 0xfd469501, 0x698098d8, 0x8b44f7af, 0xffff5bb1, 0x895cd7be, 0x6b901122, 0xfd987193, 0xa679438e, 0x49b40821, 0xf61e2562, 0xc040b340, 0x265e5a51, 0xe9b6c7aa, 0xd62f105d, 0x02441453, 0xd8a1e681, 0xe7d3fbc8, 0x21e1cde6, 0xc33707d6, 0xf4d50d87, 0x455a14ed, 0xa9e3e905, 0xfcefa3f8, 0x676f02d9, 0x8d2a4c8a, 0xfffa3942, 0x8771f681, 0x6d9d6122, 0xfde5380c, 0xa4beea44, 0x4bdecfa9, 0xf6bb4b60, 0xbebfbc70, 0x289b7ec6, 0xeaa127fa, 0xd4ef3085, 0x04881d05, 0xd9d4d039, 0xe6db99e5, 0x1fa27cf8, 0xc4ac5665, 0xf4292244, 0x432aff97, 0xab9423a7, 0xfc93a039, 0x655b59c3, 0x8f0ccc92, 0xffeff47d, 0x85845dd1, 0x6fa87e4f, 0xfe2ce6e0, 0xa3014314, 0x4e0811a1, 0xf7537e82, 0xbd3af235, 0x2ad7d2bb, 0xeb86d391]"

definition md5_s :: "nat list" where
  "md5_s = [7, 12, 17, 22, 7, 12, 17, 22, 7, 12, 17, 22, 7, 12, 17, 22, 5, 9, 14, 20, 5, 9, 14, 20, 5, 9, 14, 20, 5, 9, 14, 20, 4, 11, 16, 23, 4, 11, 16, 23, 4, 11, 16, 23, 4, 11, 16, 23, 6, 10, 15, 21, 6, 10, 15, 21, 6, 10, 15, 21, 6, 10, 15, 21]"

text \<open>Rotation to the left of a 32-bit word, for shift amounts between 1 and 31.\<close>

definition rotl32 :: "word32 \<Rightarrow> nat \<Rightarrow> word32" where
  "rotl32 x n = (push_bit n x) OR (drop_bit (32 - n) x)"

text \<open>Little-endian decoding of a block into words, and encoding of a word.\<close>

fun le_words :: "byte list \<Rightarrow> word32 list" where
  "le_words (b0 # b1 # b2 # b3 # bs) =
     (ucast b0 OR push_bit 8 (ucast b1) OR push_bit 16 (ucast b2) OR push_bit 24 (ucast b3)) # le_words bs"
| "le_words _ = []"

definition le_bytes :: "word32 \<Rightarrow> byte list" where
  "le_bytes w = [ucast w, ucast (drop_bit 8 w), ucast (drop_bit 16 w), ucast (drop_bit 24 w)]"

text \<open>
  The padding appended to a message of \<open>n\<close> bytes: one byte 0x80, zero bytes up to 56
  modulo 64, and the length in bits as a 64-bit little-endian integer.
\<close>

definition md5_padding :: "nat \<Rightarrow> byte list" where
  "md5_padding n =
     (let bits = (word_of_nat (8 * n) :: 64 word)
      in [0x80] @ replicate ((119 - n mod 64) mod 64) 0 @
         map (\<lambda>i. ucast (drop_bit (8 * i) bits)) [0..<8])"

type_synonym md5_state = "word32 \<times> word32 \<times> word32 \<times> word32"

text \<open>One of the 64 operations of the compression function.\<close>

definition md5_step :: "word32 list \<Rightarrow> md5_state \<Rightarrow> nat \<Rightarrow> md5_state" where
  "md5_step M st i =
     (case st of (A, B, C, D) \<Rightarrow>
        let (F, g) =
              (if i < 16 then ((B AND C) OR (NOT B AND D), i)
               else if i < 32 then ((D AND B) OR (NOT D AND C), (5 * i + 1) mod 16)
               else if i < 48 then (B XOR C XOR D, (3 * i + 5) mod 16)
               else (C XOR (B OR NOT D), (7 * i) mod 16));
            F' = F + A + md5_K ! i + M ! g
        in (D, B + rotl32 F' (md5_s ! i), B, C))"

definition md5_block :: "md5_state \<Rightarrow> byte list \<Rightarrow> md5_state" where
  "md5_block st blk =
     (case st of (a0, b0, c0, d0) \<Rightarrow>
        case foldl (md5_step (le_words blk)) st [0..<64] of (A, B, C, D) \<Rightarrow>
          (a0 + A, b0 + B, c0 + C, d0 + D))"

text \<open>Compress every full 64-byte block of the input, in order; a shorter tail is left.\<close>

function md5_blocks :: "md5_state \<Rightarrow> byte list \<Rightarrow> md5_state" where
  "md5_blocks st bs = (if length bs < 64 then st else md5_blocks (md5_block st (take 64 bs)) (drop 64 bs))"
  by pat_completeness auto
termination by (relation "measure (\<lambda>(st, bs). length bs)") auto

definition md5_init :: md5_state where
  "md5_init = (0x67452301, 0xefcdab89, 0x98badcfe, 0x10325476)"



definition md5_digest :: "md5_state \<Rightarrow> byte list" where
  "md5_digest st =
     (case st of (a, b, c, d) \<Rightarrow> le_bytes a @ le_bytes b @ le_bytes c @ le_bytes d)"

text \<open>The one-shot digest of a whole byte string: pad, process every block, emit.\<close>

definition md5 :: "byte list \<Rightarrow> byte list" where
  "md5 msg = md5_digest (md5_blocks md5_init (msg @ md5_padding (length msg)))"

definition hex_digit :: "nat \<Rightarrow> char" where
  "hex_digit n = ''0123456789abcdef'' ! n"

definition hex_byte :: "byte \<Rightarrow> string" where
  "hex_byte b = [hex_digit (unat b div 16), hex_digit (unat b mod 16)]"

definition hexdigest :: "byte list \<Rightarrow> string" where
  "hexdigest d = concat (map hex_byte d)"

subsection \<open>The streaming hash object\<close>

text \<open>
  A \<^verbatim>\<open>hashlib.md5()\<close> object holds the chaining value over the full blocks seen so far,
  the bytes of the incomplete last block, and the number of bytes consumed.
  \<^verbatim>\<open>update\<close> appends data and compresses every block that became full; \<^verbatim>\<open>digest\<close>
  pads what is left. \<open>md5_blocks\<close> ignores a tail shorter than one block, so it can be
  applied to the buffer with the new data appended.
\<close>

record md5_obj =
  h :: md5_state
  buf :: "byte list"
  count :: nat

definition hashlib_md5 :: md5_obj where
  "hashlib_md5 = \<lparr>h = md5_init, buf = [], count = 0\<rparr>"

definition update :: "md5_obj \<Rightarrow> byte list \<Rightarrow> md5_obj" where
  "update obj data =
     (let bs = buf obj @ data
      in \<lparr>h = md5_blocks (h obj) bs,
          buf = drop (64 * (length bs div 64)) bs,
          count = count obj + length data\<rparr>)"

definition digest :: "md5_obj \<Rightarrow> byte list" where
  "digest obj = md5_digest (md5_blocks (h obj) (buf obj @ md5_padding (count obj)))"

text \<open>
  \<^verbatim>\<open>for chunk in iter(lambda: f.read(n), b""): hash_md5.update(chunk)\<close>.
  On a regular file opened in binary mode \<^verbatim>\<open>f.read(n)\<close> returns the next \<open>n\<close> bytes, fewer
  at the end of the file, and \<^verbatim>\<open>b""\<close> at the end (or when \<open>n = 0\<close>); the loop stops at the
  first empty chunk. The open file is modelled by the bytes not yet read.
\<close>

function read_chunks :: "nat \<Rightarrow> md5_obj \<Rightarrow> byte list \<Rightarrow> md5_obj" where
  "read_chunks n obj rest =
     (let chunk = take n rest
      in if chunk = [] then obj else read_chunks n (update obj chunk) (drop n rest))"
  by pat_completeness auto
termination
  by (relation "measure (\<lambda>(n, obj, rest). length rest)") auto

definition md5_hexdigest_chunked :: "nat \<Rightarrow> byte list \<Rightarrow> string" where
  "md5_hexdigest_chunked n bs = hexdigest (digest (read_chunks n hashlib_md5 bs))"

text \<open>The body of \<^verbatim>\<open>calculate_hash\<close> once the file is open: chunk size 4096.\<close>

definition file_digest :: "byte list \<Rightarrow> string" where
  "file_digest bs = md5_hexdigest_chunked 4096 bs"

text \<open>
  Two 128-byte messages (Wang and Yu, 2004) that differ in six bytes; both are valid
  contents of a regular file.
\<close>

definition wang_a :: "byte list" where
  "wang_a = [209, 49, 221, 2, 197, 230, 238, 196, 105, 61, 154, 6, 152, 175, 249, 92, 47, 202, 181, 135, 18, 70, 126, 171, 64, 4, 88, 62, 184, 251, 127, 137, 85, 173, 52, 6, 9, 244, 179, 2, 131, 228, 136, 131, 37, 113, 65, 90, 8, 81, 37, 232, 247, 205, 201, 159, 217, 29, 189, 242, 128, 55, 60, 91, 216, 130, 62, 49, 86, 52, 143, 91, 174, 109, 172, 212, 54, 201, 25, 198, 221, 83, 226, 180, 135, 218, 3, 253, 2, 57, 99, 6, 210, 72, 205, 160, 233, 159, 51, 66, 15, 87, 126, 232, 206, 84, 182, 112, 128, 168, 13, 30, 198, 152, 33, 188, 182, 168, 131, 147, 150, 249, 101, 43, 111, 247, 42, 112]"

definition wang_b :: "byte list" where
  "wang_b = [209, 49, 221, 2, 197, 230, 238, 196, 105, 61, 154, 6, 152, 175, 249, 92, 47, 202, 181, 7, 18, 70, 126, 171, 64, 4, 88, 62, 184, 251, 127, 137, 85, 173, 52, 6, 9, 244, 179, 2, 131, 228, 136, 131, 37, 241, 65, 90, 8, 81, 37, 232, 247, 205, 201, 159, 217, 29, 189, 114, 128, 55, 60, 91, 216, 130, 62, 49, 86, 52, 143, 91, 174, 109, 172, 212, 54, 201, 25, 198, 221, 83, 226, 52, 135, 218, 3, 253, 2, 57, 99, 6, 210, 72, 205, 160, 233, 159, 51, 66, 15, 87, 126, 232, 206, 84, 182, 112, 128, 40, 13, 30, 198, 152, 33, 188, 182, 168, 131, 147, 150, 249, 101, 171, 111, 247, 42, 112]"

section \<open>The file system\<close>

text \<open>
  A tree entry is a regular file, with its bytes and its modification time, or a directory,
  with its entries in listing order; there are no symbolic links. A path is the list of the names from a root down to
  an entry; the empty path is the root. The source tree is what is found at
  \<^verbatim>\<open>source_folder\<close>, the replica tree what is found at \<^verbatim>\<open>replica_folder\<close>; \<open>None\<close> stands for
  a root path at which nothing exists. The pass reads one tree and writes the other when
  neither root lies inside the other, which \<open>plain_roots\<close> below requires of the two root
  strings.

  The code builds its path strings with \<^verbatim>\<open>os.path.join\<close> from the two root strings and
  maps a source directory to its replica counterpart with
  \<^verbatim>\<open>dirpath.replace(source_folder, replica_folder, 1)\<close>. Every \<^verbatim>\<open>dirpath\<close> that \<^verbatim>\<open>os.walk\<close>
  yields starts with the root string it was given, so the first occurrence replaced is
  that prefix. When no root string ends with a slash, what follows the prefix starts
  with the separator, and the counterpart of a path is the same relative path under the
  other root. When the source root ends with a slash, the counterpart of
  \<^verbatim>\<open>/data/src/sub\<close> for the roots \<^verbatim>\<open>/data/src/\<close> and \<^verbatim>\<open>/data/rep\<close> is \<^verbatim>\<open>/data/repsub\<close>,
  outside the replica tree: \<open>sync_folders\<close> below takes the two root strings and covers
  the calls with \<open>plain_roots\<close> only.
\<close>

type_synonym name = string
type_synonym path = "name list"

datatype node = File (content: "byte list") (mtime: int) | Dir (entries: "(name \<times> node) list")

text \<open>
  The exceptions (all subclasses of \<^verbatim>\<open>OSError\<close>) that the file operations of the pass
  can raise. \<open>Unmodelled\<close> is no exception of the code: it marks a call whose root strings
  make the code act on paths outside the two trees, of which nothing is said here.
\<close>

datatype error =
    FileNotFoundError | FileExistsError | NotADirectoryError | IsADirectoryError
  | Unmodelled

type_synonym fs = "node option"

fun lookup :: "node \<Rightarrow> path \<Rightarrow> node option" where
  "lookup t [] = Some t"
| "lookup (File c m) (x # xs) = None"
| "lookup (Dir es) (x # xs) = (case map_of es x of None \<Rightarrow> None | Some t \<Rightarrow> lookup t xs)"

definition fs_lookup :: "fs \<Rightarrow> path \<Rightarrow> node option" where
  "fs_lookup r p = (case r of None \<Rightarrow> None | Some t \<Rightarrow> lookup t p)"

fun is_dir :: "node \<Rightarrow> bool" where
  "is_dir (Dir es) = True"
| "is_dir (File c m) = False"

text \<open>
  \<^verbatim>\<open>os.path.exists\<close> is true of a file as well as of a directory; \<^verbatim>\<open>os.path.isdir\<close> only of a
  directory.
\<close>

definition path_exists :: "fs \<Rightarrow> path \<Rightarrow> bool" where
  "path_exists r p = (case fs_lookup r p of None \<Rightarrow> False | Some t \<Rightarrow> True)"

definition path_isdir :: "fs \<Rightarrow> path \<Rightarrow> bool" where
  "path_isdir r p = (case fs_lookup r p of None \<Rightarrow> False | Some t \<Rightarrow> is_dir t)"

text \<open>
  Changing the entry at a path: \<open>f\<close> maps what is there (\<open>None\<close> when nothing is) to what
  shall be there, or to an error. The directories on the way must exist: a missing one
  is \<^verbatim>\<open>ENOENT\<close>, a regular file in its place \<^verbatim>\<open>ENOTDIR\<close>. A new entry goes to the end of the
  listing of its directory.
\<close>

fun alter :: "(node option \<Rightarrow> error + node option) \<Rightarrow> node \<Rightarrow> path \<Rightarrow> error + node" where
  "alter f t [] = Inr t"
| "alter f (File c m) (x # xs) = Inl NotADirectoryError"
| "alter f (Dir es) [x] =
     (case f (map_of es x) of
        Inl e \<Rightarrow> Inl e
      | Inr None \<Rightarrow> Inr (Dir (AList.delete x es))
      | Inr (Some t) \<Rightarrow> Inr (Dir (AList.update x t es)))"
| "alter f (Dir es) (x # y # ys) =
     (case map_of es x of
        None \<Rightarrow> Inl FileNotFoundError
      | Some t \<Rightarrow>
          (case alter f t (y # ys) of
             Inl e \<Rightarrow> Inl e
           | Inr t' \<Rightarrow> Inr (Dir (AList.update x t' es))))"

definition fs_alter :: "(node option \<Rightarrow> error + node option) \<Rightarrow> fs \<Rightarrow> path \<Rightarrow> error + fs" where
  "fs_alter f r p =
     (case p of
        [] \<Rightarrow> f r
      | x # xs \<Rightarrow>
          (case r of
             None \<Rightarrow> Inl FileNotFoundError
           | Some t \<Rightarrow> (case alter f t p of Inl e \<Rightarrow> Inl e | Inr t' \<Rightarrow> Inr (Some t'))))"

text \<open>
  What \<^verbatim>\<open>os.mkdir\<close>, opening for writing followed by \<^verbatim>\<open>copystat\<close>, \<^verbatim>\<open>os.remove\<close> and
  \<^verbatim>\<open>shutil.rmtree\<close> do to the entry they are pointed at.
\<close>

definition mkdir_entry :: "node option \<Rightarrow> error + node option" where
  "mkdir_entry e = (case e of None \<Rightarrow> Inr (Some (Dir [])) | Some t \<Rightarrow> Inl FileExistsError)"

definition write_entry :: "byte list \<Rightarrow> int \<Rightarrow> node option \<Rightarrow> error + node option" where
  "write_entry c m e =
     (case e of
        None \<Rightarrow> Inr (Some (File c m))
      | Some (File c' m') \<Rightarrow> Inr (Some (File c m))
      | Some (Dir es) \<Rightarrow> Inl IsADirectoryError)"

definition remove_entry :: "node option \<Rightarrow> error + node option" where
  "remove_entry e =
     (case e of
        None \<Rightarrow> Inl FileNotFoundError
      | Some (File c m) \<Rightarrow> Inr None
      | Some (Dir es) \<Rightarrow> Inl IsADirectoryError)"

definition rmtree_entry :: "node option \<Rightarrow> error + node option" where
  "rmtree_entry e =
     (case e of
        None \<Rightarrow> Inl FileNotFoundError
      | Some (File c m) \<Rightarrow> Inl NotADirectoryError
      | Some (Dir es) \<Rightarrow> Inr None)"

definition os_mkdir :: "fs \<Rightarrow> path \<Rightarrow> error + fs" where
  "os_mkdir r p = fs_alter mkdir_entry r p"

text \<open>
  \<^verbatim>\<open>os.makedirs(name)\<close>: if the parent does not exist, create it first (a
  \<^verbatim>\<open>FileExistsError\<close> from that is ignored), then \<^verbatim>\<open>mkdir(name)\<close>. The parent of the root
  is outside the tree: \<open>pf\<close> says that a regular file is in its place (or in the place of
  one of its ancestors), and then the root cannot be created; otherwise the parent is
  there or is created on the way.
\<close>

function os_makedirs :: "bool \<Rightarrow> fs \<Rightarrow> path \<Rightarrow> error + fs" where
  "os_makedirs pf r p =
     (if p \<noteq> [] \<and> \<not> path_exists r (butlast p)
      then (case os_makedirs pf r (butlast p) of
              Inl e \<Rightarrow> (if e = FileExistsError then os_mkdir r p else Inl e)
            | Inr r' \<Rightarrow> os_mkdir r' p)
      else if p = [] \<and> pf then Inl NotADirectoryError
      else os_mkdir r p)"
  by pat_completeness auto
termination
  by (relation "measure (\<lambda>(pf, r, p). length p)") auto

definition os_remove :: "fs \<Rightarrow> path \<Rightarrow> error + fs" where
  "os_remove r p = fs_alter remove_entry r p"

definition shutil_rmtree :: "fs \<Rightarrow> path \<Rightarrow> error + fs" where
  "shutil_rmtree r p = fs_alter rmtree_entry r p"

text \<open>
  Opening a file for reading. \<open>unreadable\<close> is the environment of one pass: the files of
  the source tree that cannot be opened during this pass although they are listed
  (vanished, or made unreadable, after the listing).
\<close>

definition open_read :: "(path \<Rightarrow> bool) \<Rightarrow> fs \<Rightarrow> path \<Rightarrow> error + (byte list \<times> int)" where
  "open_read unreadable r p =
     (if unreadable p then Inl FileNotFoundError
      else (case fs_lookup r p of
              None \<Rightarrow> Inl FileNotFoundError
            | Some (File c m) \<Rightarrow> Inr (c, m)
            | Some (Dir es) \<Rightarrow> Inl IsADirectoryError))"

text \<open>The replica is read as it is: the environment of a pass has no fault there.\<close>

definition no_faults :: "path \<Rightarrow> bool" where
  "no_faults p = False"

text \<open>
  \<^verbatim>\<open>shutil.copy2(src, dst)\<close>: when \<^verbatim>\<open>dst\<close> is a directory the copy goes into it under the
  base name of \<^verbatim>\<open>src\<close>; the source is opened first, then the destination is written with
  the bytes and the modification time of the source.
\<close>

definition shutil_copy2 :: "(path \<Rightarrow> bool) \<Rightarrow> fs \<Rightarrow> path \<Rightarrow> fs \<Rightarrow> path \<Rightarrow> error + fs" where
  "shutil_copy2 unreadable src sp dst dp =
     (let dp' = (if path_isdir dst dp then dp @ drop (length sp - 1) sp else dp)
      in case open_read unreadable src sp of
           Inl e \<Rightarrow> Inl e
         | Inr (c, m) \<Rightarrow> fs_alter (write_entry c m) dst dp')"

text \<open>
  \<^verbatim>\<open>calculate_hash(file_path)\<close>: open the file, hash it in chunks of 4096 bytes.
\<close>

definition calculate_hash :: "(path \<Rightarrow> bool) \<Rightarrow> fs \<Rightarrow> path \<Rightarrow> error + string" where
  "calculate_hash unreadable r p =
     (case open_read unreadable r p of
        Inl e \<Rightarrow> Inl e
      | Inr (c, m) \<Rightarrow> Inr (file_digest c))"

text \<open>
  \<^verbatim>\<open>os.walk(top, topdown)\<close> yields \<^verbatim>\<open>(dirpath, dirnames, filenames)\<close> for every directory
  below and including \<^verbatim>\<open>top\<close>: a directory before its subdirectories when \<^verbatim>\<open>topdown\<close>,
  after them otherwise. A root that does not exist or is a regular file yields nothing
  (the error of the listing is ignored).

  The generator is lazy, and the lists below are computed at once from the tree at the
  start of the loop. For the two walks over the source this is the same, the source not
  being written. For the bottom-up walk over the replica: a directory is listed before
  the walk descends into it, and the loop body for a directory removes only entries
  inside that directory, after all of its subdirectories have been listed and yielded;
  so every listing is taken in a part of the tree that no earlier body has touched.
\<close>

definition dirnames :: "(name \<times> node) list \<Rightarrow> name list" where
  "dirnames es = map fst (filter (\<lambda>(n, t). is_dir t) es)"

definition filenames :: "(name \<times> node) list \<Rightarrow> name list" where
  "filenames es = map fst (filter (\<lambda>(n, t). \<not> is_dir t) es)"

fun walk_topdown :: "path \<Rightarrow> node \<Rightarrow> (path \<times> name list \<times> name list) list" where
  "walk_topdown d (File c m) = []"
| "walk_topdown d (Dir es) =
     (d, dirnames es, filenames es) #
     concat (map (\<lambda>(n, t). walk_topdown (d @ [n]) t) (filter (\<lambda>(n, t). is_dir t) es))"

fun walk_bottomup :: "path \<Rightarrow> node \<Rightarrow> (path \<times> name list \<times> name list) list" where
  "walk_bottomup d (File c m) = []"
| "walk_bottomup d (Dir es) =
     concat (map (\<lambda>(n, t). walk_bottomup (d @ [n]) t) (filter (\<lambda>(n, t). is_dir t) es)) @
     [(d, dirnames es, filenames es)]"

definition os_walk :: "fs \<Rightarrow> bool \<Rightarrow> (path \<times> name list \<times> name list) list" where
  "os_walk r topdown =
     (case r of
        None \<Rightarrow> []
      | Some t \<Rightarrow> (if topdown then walk_topdown [] t else walk_bottomup [] t))"

text \<open>
  The trees a file system can hold: the names in a directory are distinct.
\<close>

fun wf_node :: "node \<Rightarrow> bool" and wf_entries :: "(name \<times> node) list \<Rightarrow> bool" where
  "wf_node (File c m) = True"
| "wf_node (Dir es) = (distinct (map fst es) \<and> wf_entries es)"
| "wf_entries [] = True"
| "wf_entries ((n, t) # es) = (wf_node t \<and> wf_entries es)"

definition wf_fs :: "fs \<Rightarrow> bool" where
  "wf_fs r = (case r of None \<Rightarrow> True | Some t \<Rightarrow> wf_node t)"

section \<open>One synchronization pass\<close>

text \<open>
  The state a pass works on: the replica tree, the entries passed to \<^verbatim>\<open>logging.info\<close>
  so far (the kind of action and the relative path of the replica entry), the number of
  calls of \<^verbatim>\<open>calculate_hash\<close> so far, and the relative paths of the files they were for.
  An exception is a value \<open>Inl (e, st)\<close> with the state at the moment it was raised; nothing
  in \<^verbatim>\<open>sync_folders\<close> catches an exception, so it ends every loop it passes through.
\<close>

datatype log_entry =
    DirCreated path | FileCopied path | FileUpdated path
  | FileRestored path | FileDeleted path | DirDeleted path

record sync_state =
  replica :: fs
  log :: "log_entry list"
  hash_calls :: nat
  hashed :: "path list"

type_synonym 'a result = "(error \<times> sync_state) + 'a"

definition logging_info :: "log_entry \<Rightarrow> sync_state \<Rightarrow> sync_state" where
  "logging_info entry st = st\<lparr>log := log st @ [entry]\<rparr>"

definition on_replica :: "(fs \<Rightarrow> error + fs) \<Rightarrow> sync_state \<Rightarrow> sync_state result" where
  "on_replica opn st =
     (case opn (replica st) of
        Inl e \<Rightarrow> Inl (e, st)
      | Inr r \<Rightarrow> Inr (st\<lparr>replica := r\<rparr>))"

definition hash_file :: "(path \<Rightarrow> bool) \<Rightarrow> fs \<Rightarrow> path \<Rightarrow> sync_state \<Rightarrow> (string \<times> sync_state) result" where
  "hash_file unreadable r p st =
     (let st' = st\<lparr>hash_calls := hash_calls st + 1, hashed := hashed st @ [p]\<rparr>
      in case calculate_hash unreadable r p of
           Inl e \<Rightarrow> Inl (e, st')
         | Inr d \<Rightarrow> Inr (d, st'))"

text \<open>
  A \<^verbatim>\<open>for\<close> loop whose body may raise.
\<close>

fun for_each :: "('a \<Rightarrow> 's \<Rightarrow> 's result) \<Rightarrow> 'a list \<Rightarrow> 's \<Rightarrow> 's result" where
  "for_each body [] s = Inr s"
| "for_each body (x # xs) s =
     (case body x s of
        Inl err \<Rightarrow> Inl err
      | Inr s' \<Rightarrow> for_each body xs s')"

text \<open>
  \<^verbatim>\<open>os.path.basename\<close>, \<^verbatim>\<open>os.path.dirname\<close> and \<^verbatim>\<open>os.path.join\<close> of \<^verbatim>\<open>posixpath\<close>.
\<close>

definition os_path_basename :: "string \<Rightarrow> string" where
  "os_path_basename p = rev (takeWhile (\<lambda>c. c \<noteq> CHR ''/'') (rev p))"

definition rstrip_slash :: "string \<Rightarrow> string" where
  "rstrip_slash p = rev (dropWhile (\<lambda>c. c = CHR ''/'') (rev p))"

definition os_path_dirname :: "string \<Rightarrow> string" where
  "os_path_dirname p =
     (let head = rev (dropWhile (\<lambda>c. c \<noteq> CHR ''/'') (rev p))
      in if filter (\<lambda>c. c \<noteq> CHR ''/'') head \<noteq> [] then rstrip_slash head else head)"

definition os_path_join :: "string \<Rightarrow> string \<Rightarrow> string" where
  "os_path_join a b =
     (if take 1 b = ''/'' then b
      else if a = [] \<or> drop (length a - 1) a = ''/'' then a @ b
      else a @ ''/'' @ b)"

text \<open>
  Lines 34-36, 42-44 and 65-67: create the replica directory if nothing exists at its
  path, and log it.
\<close>

definition ensure_dir :: "bool \<Rightarrow> path \<Rightarrow> sync_state \<Rightarrow> sync_state result" where
  "ensure_dir pf d st =
     (if \<not> path_exists (replica st) d
      then (case on_replica (\<lambda>r. os_makedirs pf r d) st of
              Inl err \<Rightarrow> Inl err
            | Inr st' \<Rightarrow> Inr (logging_info (DirCreated d) st'))
      else Inr st)"

text \<open>
  \<^verbatim>\<open>shutil.copy2(source_file, replica_file)\<close> followed by the log line.
\<close>

definition copy_and_log ::
  "(path \<Rightarrow> bool) \<Rightarrow> fs \<Rightarrow> path \<Rightarrow> (path \<Rightarrow> log_entry) \<Rightarrow> sync_state \<Rightarrow> sync_state result" where
  "copy_and_log unreadable source f entry st =
     (case on_replica (\<lambda>r. shutil_copy2 unreadable source f r f) st of
        Inl err \<Rightarrow> Inl err
      | Inr st' \<Rightarrow> Inr (logging_info (entry f) st'))"

text \<open>
  Lines 46-59, the body of the loop over \<^verbatim>\<open>filenames\<close> in the first walk.
  \<^verbatim>\<open>source_files\<close> is the dictionary from replica paths to source paths.
\<close>

type_synonym source_files = "path \<rightharpoonup> path"

definition sync_file ::
  "(path \<Rightarrow> bool) \<Rightarrow> fs \<Rightarrow> string \<Rightarrow> path \<Rightarrow> name \<Rightarrow>
   sync_state \<times> source_files \<Rightarrow> (sync_state \<times> source_files) result" where
  "sync_file unreadable source log_name dirpath filename s =
     (case s of (st, source_files) \<Rightarrow>
        if filename = log_name then Inr (st, source_files)
        else
          let f = dirpath @ [filename];
              source_files' = source_files(f \<mapsto> f)
          in if \<not> path_exists (replica st) f
             then (case copy_and_log unreadable source f FileCopied st of
                     Inl err \<Rightarrow> Inl err
                   | Inr st' \<Rightarrow> Inr (st', source_files'))
             else (case hash_file unreadable source f st of
                     Inl err \<Rightarrow> Inl err
                   | Inr (hs, st1) \<Rightarrow>
                       (case hash_file no_faults (replica st1) f st1 of
                          Inl err \<Rightarrow> Inl err
                        | Inr (hr, st2) \<Rightarrow>
                            if hs \<noteq> hr
                            then (case copy_and_log unreadable source f FileUpdated st2 of
                                    Inl err \<Rightarrow> Inl err
                                  | Inr st' \<Rightarrow> Inr (st', source_files'))
                            else Inr (st2, source_files'))))"

text \<open>
  Lines 39-59, the body of the first walk over the source.
\<close>

definition phase1_dir ::
  "bool \<Rightarrow> (path \<Rightarrow> bool) \<Rightarrow> fs \<Rightarrow> string \<Rightarrow> path \<times> name list \<times> name list \<Rightarrow>
   sync_state \<times> source_files \<Rightarrow> (sync_state \<times> source_files) result" where
  "phase1_dir pf unreadable source log_name entry s =
     (case entry of (dirpath, dnames, fnames) \<Rightarrow>
      case s of (st, source_files) \<Rightarrow>
        (case ensure_dir pf dirpath st of
           Inl err \<Rightarrow> Inl err
         | Inr st' \<Rightarrow>
             for_each (sync_file unreadable source log_name dirpath) fnames (st', source_files)))"

text \<open>
  Lines 62-75, the second walk over the source: every file whose replica counterpart
  does not exist is copied and logged as restored. There is no test of the file name
  here.
\<close>

definition restore_file ::
  "(path \<Rightarrow> bool) \<Rightarrow> fs \<Rightarrow> path \<Rightarrow> name \<Rightarrow> sync_state \<Rightarrow> sync_state result" where
  "restore_file unreadable source dirpath filename st =
     (let f = dirpath @ [filename]
      in if \<not> path_exists (replica st) f
         then copy_and_log unreadable source f FileRestored st
         else Inr st)"

definition phase2_dir ::
  "bool \<Rightarrow> (path \<Rightarrow> bool) \<Rightarrow> fs \<Rightarrow> path \<times> name list \<times> name list \<Rightarrow>
   sync_state \<Rightarrow> sync_state result" where
  "phase2_dir pf unreadable source entry st =
     (case entry of (dirpath, dnames, fnames) \<Rightarrow>
        (case ensure_dir pf dirpath st of
           Inl err \<Rightarrow> Inl err
         | Inr st' \<Rightarrow> for_each (restore_file unreadable source dirpath) fnames st'))"

text \<open>
  Lines 78-91, the bottom-up walk over the replica.
\<close>

definition prune_file :: "source_files \<Rightarrow> path \<Rightarrow> name \<Rightarrow> sync_state \<Rightarrow> sync_state result" where
  "prune_file source_files dirpath filename st =
     (let f = dirpath @ [filename]
      in if source_files f = None
         then (if path_exists (replica st) f
               then (case on_replica (\<lambda>r. os_remove r f) st of
                       Inl err \<Rightarrow> Inl err
                     | Inr st' \<Rightarrow> Inr (logging_info (FileDeleted f) st'))
               else Inr st)
         else Inr st)"

definition prune_dir :: "fs \<Rightarrow> path \<Rightarrow> name \<Rightarrow> sync_state \<Rightarrow> sync_state result" where
  "prune_dir source dirpath dirname st =
     (let d = dirpath @ [dirname]
      in if \<not> path_exists source d
         then (case on_replica (\<lambda>r. shutil_rmtree r d) st of
                 Inl err \<Rightarrow> Inl err
               | Inr st' \<Rightarrow> Inr (logging_info (DirDeleted d) st'))
         else Inr st)"

definition phase3_dir ::
  "fs \<Rightarrow> source_files \<Rightarrow> path \<times> name list \<times> name list \<Rightarrow> sync_state \<Rightarrow> sync_state result" where
  "phase3_dir source source_files entry st =
     (case entry of (dirpath, dnames, fnames) \<Rightarrow>
        (case for_each (prune_file source_files dirpath) fnames st of
           Inl err \<Rightarrow> Inl err
         | Inr st' \<Rightarrow> for_each (prune_dir source dirpath) dnames st'))"

text \<open>
  The path strings of the pass. \<^verbatim>\<open>os.walk(top)\<close> yields as \<^verbatim>\<open>dirpath\<close> the string \<^verbatim>\<open>top\<close> for
  the root and \<^verbatim>\<open>os.path.join(dirpath, name)\<close> for a directory below; line 40 and line 63
  replace the first occurrence of \<^verbatim>\<open>source_folder\<close> in it by \<^verbatim>\<open>replica_folder\<close>
  (\<^verbatim>\<open>str.replace\<close> with count 1), and line 88 does the converse.
\<close>

fun replace_first :: "string \<Rightarrow> string \<Rightarrow> string \<Rightarrow> string" where
  "replace_first old new [] = (if old = [] then new else [])"
| "replace_first old new (c # cs) =
     (if prefix old (c # cs) then new @ drop (length old) (c # cs)
      else c # replace_first old new cs)"

definition walk_dirpath :: "string \<Rightarrow> path \<Rightarrow> string" where
  "walk_dirpath top_folder p = foldl os_path_join top_folder p"

definition counterpart :: "string \<Rightarrow> string \<Rightarrow> path \<Rightarrow> string" where
  "counterpart from_folder to_folder p =
     replace_first from_folder to_folder (walk_dirpath from_folder p)"

text \<open>
  A root string is plain when it is not empty and does not end with a slash; the names
  in a tree are not empty and hold no slash. Two plain root strings of which none is the
  other, or a path below the other, denote two trees of which none holds the other: the
  pass then reads one tree and writes the other, and the counterpart of the path \<open>p\<close>
  below one root is the path \<open>p\<close> below the other root (\<open>counterpart_plain\<close> below), which
  is how the walks of \<open>sync_folders\<close> are written here.
\<close>

definition plain_root :: "string \<Rightarrow> bool" where
  "plain_root folder \<longleftrightarrow> folder \<noteq> [] \<and> last folder \<noteq> CHR ''/''"

definition plain_roots :: "string \<Rightarrow> string \<Rightarrow> bool" where
  "plain_roots source_folder replica_folder \<longleftrightarrow>
     plain_root source_folder \<and> plain_root replica_folder \<and>
     source_folder \<noteq> replica_folder \<and>
     \<not> prefix (source_folder @ ''/'') replica_folder \<and>
     \<not> prefix (replica_folder @ ''/'') source_folder"

definition plain_name :: "name \<Rightarrow> bool" where
  "plain_name n \<longleftrightarrow> n \<noteq> [] \<and> CHR ''/'' \<notin> set n"

text \<open>
  \<^verbatim>\<open>sync_folders(source_folder, replica_folder, log_file)\<close>, in an environment: \<open>pf\<close> says
  whether a regular file is in the place of the parent of \<^verbatim>\<open>replica_folder\<close>, \<open>unreadable\<close>
  which source files cannot be read, \<open>source\<close> is the tree at \<^verbatim>\<open>source_folder\<close>, and the
  replica of the state is the tree at \<^verbatim>\<open>replica_folder\<close>. A call whose root strings are not
  plain is not covered: its outcome is \<open>Unmodelled\<close>.
\<close>

definition sync_folders ::
  "bool \<Rightarrow> (path \<Rightarrow> bool) \<Rightarrow> fs \<Rightarrow> string \<Rightarrow> string \<Rightarrow> string \<Rightarrow>
   sync_state \<Rightarrow> sync_state result" where
  "sync_folders pf unreadable source source_folder replica_folder log_file st =
     (if \<not> plain_roots source_folder replica_folder then Inl (Unmodelled, st)
      else
     (case ensure_dir pf [] st of
        Inl err \<Rightarrow> Inl err
      | Inr st0 \<Rightarrow>
     (case for_each (phase1_dir pf unreadable source (os_path_basename log_file))
                    (os_walk source True) (st0, Map.empty) of
        Inl err \<Rightarrow> Inl err
      | Inr (st1, source_files) \<Rightarrow>
     (case for_each (phase2_dir pf unreadable source) (os_walk source True) st1 of
        Inl err \<Rightarrow> Inl err
      | Inr st2 \<Rightarrow>
          for_each (phase3_dir source source_files) (os_walk (replica st2) False) st2))))"

section \<open>The naive decision procedure\<close>





section \<open>The entry point\<close>

text \<open>
  What \<^verbatim>\<open>main\<close> acts on: the tree at \<^verbatim>\<open>source_folder\<close>, the state of the pass (whose replica
  is the tree at \<^verbatim>\<open>replica_folder\<close>), whether \<^verbatim>\<open>logging.basicConfig\<close> has been called, and the
  lines printed.
\<close>

record world =
  source_tree :: fs
  sync :: sync_state
  logging_configured :: bool
  stdout :: "string list"

text \<open>
  \<^verbatim>\<open>setup_logging(log_path)\<close>. The log directory is the directory that contains the source
  folder, which exists when the source folder does; but for a source folder given
  without any slash it is the empty string, \<^verbatim>\<open>os.path.exists("")\<close> is false and
  \<^verbatim>\<open>os.makedirs("")\<close> raises \<^verbatim>\<open>FileNotFoundError\<close>.
\<close>

definition setup_logging :: "string \<Rightarrow> world \<Rightarrow> (error \<times> world) + world" where
  "setup_logging log_path w =
     (let log_dir = os_path_dirname log_path
      in if log_dir = [] then Inl (FileNotFoundError, w)
         else Inr (w\<lparr>logging_configured := True\<rparr>))"

text \<open>
  The passes of \<^verbatim>\<open>main\<close>: one at once, then one after every sleep of 30 seconds until the
  \<^verbatim>\<open>KeyboardInterrupt\<close>; \<open>ticks\<close> is the number of sleeps that end before it. The source
  tree does not change, so the observer delivers no event.
\<close>

fun sync_passes ::
  "(path \<Rightarrow> bool) \<Rightarrow> fs \<Rightarrow> string \<Rightarrow> string \<Rightarrow> string \<Rightarrow> nat \<Rightarrow>
   sync_state \<Rightarrow> sync_state result" where
  "sync_passes unreadable source source_folder replica_folder log_file 0 st =
     sync_folders False unreadable source source_folder replica_folder log_file st"
| "sync_passes unreadable source source_folder replica_folder log_file (Suc ticks) st =
     (case sync_folders False unreadable source source_folder replica_folder log_file st of
        Inl err \<Rightarrow> Inl err
      | Inr st' \<Rightarrow>
          sync_passes unreadable source source_folder replica_folder log_file ticks st')"

text \<open>
  \<^verbatim>\<open>main\<close>, lines 141-166. The replica folder is the sibling of the source folder whose name
  is the name of the source folder followed by \<^verbatim>\<open>_sync\<close>; its parent is the directory that
  contains the source folder, so no regular file is in its place when a pass starts.
\<close>

definition main :: "(path \<Rightarrow> bool) \<Rightarrow> nat \<Rightarrow> string \<Rightarrow> world \<Rightarrow> (error \<times> world) + world" where
  "main unreadable ticks source_folder w =
     (let replica_folder =
            os_path_join (os_path_dirname source_folder)
              (os_path_basename source_folder @ ''_sync'');
          log_file_path = os_path_join (os_path_dirname source_folder) ''sync.log''
      in if \<not> path_exists (source_tree w) []
         then Inr (w\<lparr>stdout := stdout w @ [''Source folder does not exist: '' @ source_folder]\<rparr>)
         else (case setup_logging log_file_path w of
                 Inl err \<Rightarrow> Inl err
               | Inr w1 \<Rightarrow>
                   (case sync_passes unreadable (source_tree w1) source_folder replica_folder
                           log_file_path ticks (sync w1) of
                      Inl (e, st) \<Rightarrow> Inl (e, w1\<lparr>sync := st\<rparr>)
                    | Inr st \<Rightarrow> Inr (w1\<lparr>sync := st\<rparr>))))"

section \<open>Test data\<close>

definition bytes_of :: "string \<Rightarrow> byte list" where
  "bytes_of s = map of_char s"

definition fresh :: "fs \<Rightarrow> sync_state" where
  "fresh r = \<lparr>replica = r, log = [], hash_calls = 0, hashed = []\<rparr>"

text \<open>The source tree of the end-to-end scenario: \<^verbatim>\<open>a.txt\<close> and \<^verbatim>\<open>sub/b.txt\<close>.\<close>

definition ex_source :: fs where
  "ex_source =
     Some (Dir [(''a.txt'', File (bytes_of ''hello'') 10),
                (''sub'', Dir [(''b.txt'', File (bytes_of ''world'') 20)])])"

section \<open>Views of the trees, and the relations between the states of a pass\<close>

text \<open>The hash object after consuming \<open>msg\<close>, whatever the chunking was.\<close>

definition represents :: "md5_obj \<Rightarrow> byte list \<Rightarrow> bool" where
  "represents obj msg \<longleftrightarrow>
     h obj = md5_blocks md5_init msg \<and>
     buf obj = drop (64 * (length msg div 64)) msg \<and>
     count obj = length msg"

text \<open>
  What is at a path, without the contents of a directory: the operations of the pass
  change this at one path each (\<^verbatim>\<open>rmtree\<close> at a path and everything below it).
  \<open>path_isfile\<close> is \<^verbatim>\<open>os.path.isfile\<close>.
\<close>

fun shallow :: "node \<Rightarrow> node" where
  "shallow (File c m) = File c m"
| "shallow (Dir es) = Dir []"

definition view :: "fs \<Rightarrow> path \<Rightarrow> node option" where
  "view r p = map_option shallow (fs_lookup r p)"

definition path_isfile :: "fs \<Rightarrow> path \<Rightarrow> bool" where
  "path_isfile r p =
     (case fs_lookup r p of
        None \<Rightarrow> False
      | Some (File c m) \<Rightarrow> True
      | Some (Dir es) \<Rightarrow> False)"

text \<open>
  From \<open>R\<close> to \<open>R'\<close> the two walks over the source \<open>S\<close> have only created directories
  where nothing was, and written files of \<open>S\<close> where nothing was or where a file with
  another fingerprint was; \<open>grows_at\<close> is the same of what is at one path.
\<close>

definition grows_at :: "node option \<Rightarrow> node option \<Rightarrow> node option \<Rightarrow> bool" where
  "grows_at s v v' \<longleftrightarrow>
     v' = v \<or> (v = None \<and> v' = Some (Dir [])) \<or>
     (v' = s \<and>
      (\<exists>c m. s = Some (File c m) \<and>
         (v = None \<or> (\<exists>c' m'. v = Some (File c' m') \<and> file_digest c' \<noteq> file_digest c))))"

definition grows :: "fs \<Rightarrow> fs \<Rightarrow> fs \<Rightarrow> bool" where
  "grows S R R' \<longleftrightarrow>
     (\<forall>q. view R' q = view R q \<or>
          (view R q = None \<and> view R' q = Some (Dir [])) \<or>
          (view R' q = view S q \<and>
           (\<exists>c m. view S q = Some (File c m) \<and>
              (view R q = None \<or>
               (\<exists>c' m'. view R q = Some (File c' m') \<and> file_digest c' \<noteq> file_digest c)))))"

text \<open>From \<open>R\<close> to \<open>R'\<close> the walk over the replica has only removed entries that are not
  keys of the dictionary.\<close>

definition prunes :: "source_files \<Rightarrow> fs \<Rightarrow> fs \<Rightarrow> bool" where
  "prunes sf R R' \<longleftrightarrow> (\<forall>q. view R' q = view R q \<or> (view R' q = None \<and> sf q = None))"

text \<open>The replica file at \<open>f\<close> has the fingerprint of the source file at \<open>f\<close>.\<close>

definition good :: "fs \<Rightarrow> fs \<Rightarrow> path \<Rightarrow> bool" where
  "good S R f \<longleftrightarrow>
     (\<exists>c m c' m'. fs_lookup S f = Some (File c m) \<and> fs_lookup R f = Some (File c' m') \<and>
        file_digest c' = file_digest c)"

text \<open>The loop state of the first walk: what holds of it, and how it moves.\<close>

definition keys_ok :: "fs \<Rightarrow> string \<Rightarrow> sync_state \<times> source_files \<Rightarrow> bool" where
  "keys_ok S ln s \<longleftrightarrow> (\<forall>f. snd s f \<noteq> None \<longrightarrow> path_isfile S f \<and> f \<noteq> [] \<and> last f \<noteq> ln)"

definition moves1 :: "fs \<Rightarrow> sync_state \<times> source_files \<Rightarrow> sync_state \<times> source_files \<Rightarrow> bool" where
  "moves1 S s s' \<longleftrightarrow>
     grows S (replica (fst s)) (replica (fst s')) \<and> (\<forall>f. snd s f \<noteq> None \<longrightarrow> snd s' f \<noteq> None)"

definition mirrored ::
  "(path \<Rightarrow> bool) \<Rightarrow> fs \<Rightarrow> path \<Rightarrow> sync_state \<times> source_files \<Rightarrow> bool" where
  "mirrored u S f s \<longleftrightarrow> snd s f \<noteq> None \<and> good S (replica (fst s)) f \<and> \<not> u f"

text \<open>The same for the loop states of the second and third walk.\<close>

definition moves2 :: "fs \<Rightarrow> sync_state \<Rightarrow> sync_state \<Rightarrow> bool" where
  "moves2 S st st' \<longleftrightarrow> grows S (replica st) (replica st')"

definition moves3 :: "source_files \<Rightarrow> sync_state \<Rightarrow> sync_state \<Rightarrow> bool" where
  "moves3 sf st st' \<longleftrightarrow> prunes sf (replica st) (replica st')"

text \<open>
  Two states that differ at most in the number of fingerprints computed, and two outcomes
  of which both raise the same exception or both return, in states or loop states so
  related.
\<close>

definition same :: "sync_state \<Rightarrow> sync_state \<Rightarrow> bool" where
  "same a b \<longleftrightarrow> replica a = replica b \<and> log a = log b"



text \<open>
  The state in which a call leaves the replica and the log, whether it returns or raises;
  a property of the state in every outcome; and the property of the pass about the
  replica root: what is at the root, and the log entries written so far are kept.
\<close>

definition outcome_state :: "sync_state result \<Rightarrow> sync_state" where
  "outcome_state res = (case res of Inl (e, st) \<Rightarrow> st | Inr st \<Rightarrow> st)"

definition outcomes :: "(sync_state \<Rightarrow> bool) \<Rightarrow> ('a \<Rightarrow> bool) \<Rightarrow> 'a result \<Rightarrow> bool" where
  "outcomes P Q res = (case res of Inl (e, st) \<Rightarrow> P st | Inr a \<Rightarrow> Q a)"



text \<open>The replica of a state is a tree that a file system can hold.\<close>

definition wf_state :: "sync_state \<Rightarrow> bool" where
  "wf_state st \<longleftrightarrow> wf_fs (replica st)"

section \<open>Properties of the fingerprint\<close>

declare md5_blocks.simps [simp del]
declare read_chunks.simps [simp del]

lemma block_split:
  "64 * ((a mod 64 + d) div 64) + 64 * (a div 64) = 64 * ((a + d) div (64::nat))"
proof -
  have "a + d = a div 64 * 64 + (a mod 64 + d)"
    by (simp add: add.assoc [symmetric])
  then have "(a + d) div 64 = (a div 64 * 64 + (a mod 64 + d)) div 64"
    by simp
  also have "\<dots> = a div 64 + (a mod 64 + d) div 64"
    by (rule div_mult_self3) simp
  finally show ?thesis by simp
qed

text \<open>Compressing a concatenation: first the blocks of the front, then the rest.\<close>

lemma md5_blocks_append:
  "md5_blocks st (xs @ ys) =
     md5_blocks (md5_blocks st xs) (drop (64 * (length xs div 64)) xs @ ys)"
proof (induction st xs rule: md5_blocks.induct)
  case (1 st bs)
  show ?case
  proof (cases "length bs < 64")
    case True
    then show ?thesis by (simp add: md5_blocks.simps [of st bs])
  next
    case False
    then have len: "64 \<le> length bs" by simp
    have d: "64 * ((length bs - 64) div 64) + 64 = 64 * (length bs div 64)"
      using len by (simp add: le_div_geq)
    have "md5_blocks st (bs @ ys) =
            md5_blocks (md5_block st (take 64 bs)) (drop 64 bs @ ys)"
      using len by (subst md5_blocks.simps) simp
    also have "\<dots> = md5_blocks (md5_blocks (md5_block st (take 64 bs)) (drop 64 bs))
                   (drop (64 * (length (drop 64 bs) div 64)) (drop 64 bs) @ ys)"
      using 1 [OF False] by simp
    also have "md5_blocks (md5_block st (take 64 bs)) (drop 64 bs) = md5_blocks st bs"
      using False by (subst (2) md5_blocks.simps) simp
    also have "drop (64 * (length (drop 64 bs) div 64)) (drop 64 bs) =
               drop (64 * (length bs div 64)) bs"
      using d by (simp add: add.commute)
    finally show ?thesis .
  qed
qed

lemma represents_new: "represents hashlib_md5 []"
  by (simp add: represents_def hashlib_md5_def md5_blocks.simps [of _ "[]"])

lemma represents_update:
  assumes "represents obj msg"
  shows "represents (update obj data) (msg @ data)"
proof -
  let ?k = "64 * (length msg div 64)"
  from assms have ho: "h obj = md5_blocks md5_init msg" and bo: "buf obj = drop ?k msg"
    and co: "count obj = length msg"
    by (simp_all add: represents_def)
  have h': "h (update obj data) = md5_blocks md5_init (msg @ data)"
    by (simp add: update_def Let_def ho bo md5_blocks_append [of md5_init msg data])
  have lb: "length (buf obj) = length msg mod 64"
    by (simp add: bo minus_mult_div_eq_mod)
  have "drop (64 * (length (buf obj @ data) div 64)) (buf obj @ data) =
        drop (64 * (length (buf obj @ data) div 64)) (drop ?k (msg @ data))"
    by (simp add: bo)
  also have "\<dots> = drop (64 * (length (buf obj @ data) div 64) + ?k) (msg @ data)"
    by (simp only: drop_drop)
  also have "64 * (length (buf obj @ data) div 64) + ?k = 64 * (length (msg @ data) div 64)"
    by (simp only: length_append lb block_split)
  finally have b': "buf (update obj data) = drop (64 * (length (msg @ data) div 64)) (msg @ data)"
    by (simp add: update_def Let_def)
  have c': "count (update obj data) = length (msg @ data)"
    by (simp add: update_def Let_def co)
  show ?thesis
    unfolding represents_def using h' b' c' by blast
qed

lemma digest_represents:
  assumes "represents obj msg"
  shows "digest obj = md5 msg"
  using assms
  by (simp add: digest_def md5_def represents_def md5_blocks_append [of md5_init msg])

lemma read_chunks_represents:
  "0 < n \<Longrightarrow> represents obj msg \<Longrightarrow> represents (read_chunks n obj rest) (msg @ rest)"
proof (induction n obj rest arbitrary: msg rule: read_chunks.induct)
  case (1 n obj rest)
  show ?case
  proof (cases "take n rest = []")
    case True
    with 1(2) have "rest = []" by simp
    with 1(3) show ?thesis by (simp add: read_chunks.simps [of n obj])
  next
    case False
    have "represents (read_chunks n (update obj (take n rest)) (drop n rest))
            ((msg @ take n rest) @ drop n rest)"
      using 1(1) [OF refl False 1(2) represents_update [OF 1(3)]] .
    then show ?thesis
      using False by (simp add: read_chunks.simps [of n obj rest])
  qed
qed

lemma chunked_eq_oneshot:
  "0 < n \<Longrightarrow> md5_hexdigest_chunked n bs = hexdigest (md5 bs)"
  using read_chunks_represents [OF _ represents_new, of n bs]
  by (simp add: md5_hexdigest_chunked_def digest_represents)

lemma file_digest_eq: "file_digest bs = hexdigest (md5 bs)"
  by (simp add: file_digest_def chunked_eq_oneshot)

lemma length_md5: "length (md5 bs) = 16"
  by (simp add: md5_def md5_digest_def le_bytes_def split: prod.splits)

lemma length_hexdigest: "length (hexdigest d) = 2 * length d"
  by (induction d) (simp_all add: hexdigest_def hex_byte_def)

lemma md5_wang_a:
  "md5 wang_a = [0x79, 0x05, 0x40, 0x25, 0x25, 0x5f, 0xb1, 0xa2, 0x6e, 0x4b, 0xc4, 0x22, 0xae, 0xf5, 0x4e, 0xb4]"
  by code_simp

lemma md5_wang_b:
  "md5 wang_b = [0x79, 0x05, 0x40, 0x25, 0x25, 0x5f, 0xb1, 0xa2, 0x6e, 0x4b, 0xc4, 0x22, 0xae, 0xf5, 0x4e, 0xb4]"
  by code_simp

lemma wang_distinct: "wang_a \<noteq> wang_b"
  by (simp add: wang_a_def wang_b_def)

lemma wang_collision: "file_digest wang_a = file_digest wang_b"
  by (simp add: file_digest_eq md5_wang_a md5_wang_b)

text \<open>
  Claim C8, as the code has it: for every byte sequence and every positive chunk size,
  reading the stream chunk by chunk into the hash object gives the digest of the whole
  sequence hashed at once, a string of 32 hexadecimal characters; with the chunk size
  4096 of \<^verbatim>\<open>calculate_hash\<close> in particular. The digest is a function of the byte content
  alone, so identical contents have equal digests. (The converse is not part of the
  statement: see \<open>digest_not_injective\<close>.)
\<close>

theorem calculate_hash_chunking:
  "0 < n \<Longrightarrow>
     md5_hexdigest_chunked n bs = hexdigest (md5 bs) \<and>
     file_digest bs = md5_hexdigest_chunked n bs \<and>
     length (file_digest bs) = 32 \<and>
     (bs = bs' \<longrightarrow> file_digest bs = file_digest bs')"
  by (simp add: chunked_eq_oneshot file_digest_eq length_hexdigest length_md5)

theorem calculate_hash_chunking_witness:
  "0 < (3::nat) \<and>
   md5_hexdigest_chunked 3 [97, 98, 99, 100] = hexdigest (md5 [97, 98, 99, 100]) \<and>
   file_digest [97, 98, 99, 100] = md5_hexdigest_chunked 3 [97, 98, 99, 100] \<and>
   length (file_digest [97, 98, 99, 100]) = 32"
proof -
  have pos: "0 < (3::nat)" by simp
  from pos calculate_hash_chunking [OF pos, of "[97, 98, 99, 100]" "[97, 98, 99, 100]"]
  show ?thesis by blast
qed

text \<open>
  Equal digests do not imply identical contents: the two messages above differ and have
  the same MD5 digest.
\<close>

theorem digest_not_injective:
  "\<not> (file_digest wang_a = file_digest wang_b \<longleftrightarrow> wang_a = wang_b)"
  using wang_collision wang_distinct by simp

section \<open>The pass on concrete trees\<close>


text \<open>
  Claim C3 is about a file deleted from the replica only. Here \<^verbatim>\<open>sub/b.txt\<close> is removed
  from the mirrored replica of the scenario, and the next pass runs: the file comes back
  with the content and the modification time of the source, and the one log entry of
  the pass is of the kind "File copied"; no entry is of the kind "File restored". The
  first walk copies every file that is missing in the replica, so the second walk, whose
  comment announces the restoring of missing files, finds nothing left to restore.
\<close>

theorem deleted_replica_file_logged_as_copied:
  "os_remove ex_source [''sub'', ''b.txt''] =
     Inr (Some (Dir [(''a.txt'', File (bytes_of ''hello'') 10), (''sub'', Dir [])])) \<and>
   sync_folders False no_faults ex_source ''/data/src'' ''/data/src_sync'' ''/data/sync.log''
     (fresh (Some (Dir [(''a.txt'', File (bytes_of ''hello'') 10), (''sub'', Dir [])]))) =
     Inr \<lparr>replica = ex_source, log = [FileCopied [''sub'', ''b.txt'']], hash_calls = 2,
          hashed = [[''a.txt''], [''a.txt'']]\<rparr>"
  by code_simp

text \<open>
  Claim C4 is about files that bear the name of the log file. A source tree that holds
  a file \<^verbatim>\<open>sync.log\<close>: the first walk skips it, the second walk copies it into the replica
  and logs "File restored", and the walk over the replica deletes it again as stale and
  logs "File deleted".
\<close>

theorem log_file_restored_then_deleted:
  "sync_folders False no_faults (Some (Dir [(''sync.log'', File (bytes_of ''x'') 1)]))
     ''/data/src'' ''/data/src_sync'' ''/data/sync.log'' (fresh None) =
     Inr \<lparr>replica = Some (Dir []),
          log = [DirCreated [], FileRestored [''sync.log''], FileDeleted [''sync.log'']],
          hash_calls = 0, hashed = []\<rparr>"
  by code_simp

text \<open>
  Claim C2 is about a second pass that follows a first one with no change in between.
  With the source tree above, the state after the first pass is the empty replica
  directory and three log entries; the second pass from that state copies the file and
  deletes it once more, and appends two log entries.
\<close>

theorem second_pass_has_side_effects:
  "sync_folders False no_faults (Some (Dir [(''sync.log'', File (bytes_of ''x'') 1)]))
     ''/data/src'' ''/data/src_sync'' ''/data/sync.log''
     \<lparr>replica = Some (Dir []),
      log = [DirCreated [], FileRestored [''sync.log''], FileDeleted [''sync.log'']],
      hash_calls = 0, hashed = []\<rparr> =
     Inr \<lparr>replica = Some (Dir []),
          log = [DirCreated [], FileRestored [''sync.log''], FileDeleted [''sync.log''],
                 FileRestored [''sync.log''], FileDeleted [''sync.log'']],
          hash_calls = 0, hashed = []\<rparr>"
  by code_simp

text \<open>
  A second pass can also act when no file bears the log name. The source holds an empty
  directory \<^verbatim>\<open>d\<close> and the replica a regular file \<^verbatim>\<open>d\<close>: the first pass finds that the path
  exists and creates nothing, then deletes the file as stale; the second pass creates
  the directory.
\<close>

lemma file_in_place_of_directory:
  "sync_folders False no_faults (Some (Dir [(''d'', Dir [])])) ''/data/src'' ''/data/src_sync'' ''/data/sync.log''
     (fresh (Some (Dir [(''d'', File (bytes_of ''x'') 1)]))) =
     Inr \<lparr>replica = Some (Dir []), log = [FileDeleted [''d'']], hash_calls = 0, hashed = []\<rparr> \<and>
   sync_folders False no_faults (Some (Dir [(''d'', Dir [])])) ''/data/src'' ''/data/src_sync'' ''/data/sync.log''
     \<lparr>replica = Some (Dir []), log = [FileDeleted [''d'']], hash_calls = 0, hashed = []\<rparr> =
     Inr \<lparr>replica = Some (Dir [(''d'', Dir [])]),
          log = [FileDeleted [''d''], DirCreated [''d'']], hash_calls = 0, hashed = []\<rparr>"
  by code_simp

text \<open>
  Claim C5 as it is stated, at a concrete input: \<^verbatim>\<open>a.txt\<close> of the scenario cannot be opened
  during the pass. The pass does not skip it and go on to \<^verbatim>\<open>sub/b.txt\<close>: the exception
  leaves \<^verbatim>\<open>sync_folders\<close> with the replica still empty.
\<close>

theorem read_error_aborts_pass_example:
  "sync_folders False (\<lambda>p. p = [''a.txt'']) ex_source ''/data/src'' ''/data/src_sync'' ''/data/sync.log'' (fresh None) =
     Inl (FileNotFoundError,
          \<lparr>replica = Some (Dir []), log = [DirCreated []], hash_calls = 0, hashed = []\<rparr>)"
  by code_simp

section \<open>The entry point\<close>

text \<open>
  Claim C9: when nothing exists at the source folder path, \<^verbatim>\<open>main\<close> prints the error
  message and returns; logging is not configured, no log entry is written, the replica
  location is left as it was and no pass is attempted: the world after the call is the
  world before it with one more line printed.
\<close>

theorem main_source_missing:
  "source_tree w = None \<Longrightarrow>
     main unreadable ticks source_folder w =
       Inr (w\<lparr>stdout := stdout w @ [''Source folder does not exist: '' @ source_folder]\<rparr>)"
  by (simp add: main_def path_exists_def fs_lookup_def)

theorem main_source_missing_witness:
  "source_tree \<lparr>source_tree = None, sync = fresh None, logging_configured = False, stdout = []\<rparr> = None \<and>
   main no_faults 2 ''/data/src''
     \<lparr>source_tree = None, sync = fresh None, logging_configured = False, stdout = []\<rparr> =
     Inr \<lparr>source_tree = None, sync = fresh None, logging_configured = False,
          stdout = [''Source folder does not exist: /data/src'']\<rparr>"
  using main_source_missing
    [of "\<lparr>source_tree = None, sync = fresh None, logging_configured = False, stdout = []\<rparr>"
        no_faults 2 "''/data/src''"]
  by simp

section \<open>The replica after a pass\<close>

subsection \<open>Paths and the operations on a tree\<close>

lemma lookup_append:
  "lookup t (p @ q) = (case lookup t p of None \<Rightarrow> None | Some n \<Rightarrow> lookup n q)"
proof (induction t p rule: lookup.induct)
  case (1 t) show ?case by simp
next
  case (2 c m x xs) show ?case by simp
next
  case (3 es x xs) then show ?case by (simp split: option.splits)
qed

lemma lookup_File_below: "q \<noteq> [] \<Longrightarrow> lookup (File c m) q = None"
  by (cases q) simp_all

lemma lookup_empty_Dir_below: "q \<noteq> [] \<Longrightarrow> lookup (Dir []) q = None"
  by (cases q) simp_all

lemma alter_Inr_is_Dir:
  "alter f t p = Inr t' \<Longrightarrow> p \<noteq> [] \<Longrightarrow> is_dir t \<and> is_dir t'"
  by (induction f t p rule: alter.induct) (auto split: sum.splits option.splits)

text \<open>Outside the subtree at \<open>p\<close> nothing changes, up to the contents of directories.\<close>

lemma alter_frame:
  "alter f t p = Inr t' \<Longrightarrow> p \<noteq> [] \<Longrightarrow> \<not> prefix p q \<Longrightarrow>
     map_option shallow (lookup t' q) = map_option shallow (lookup t q)"
proof (induction f t p arbitrary: t' q rule: alter.induct)
  case (1 f t) then show ?case by simp
next
  case (2 f c m x xs) then show ?case by simp
next
  case (3 f es x)
  show ?case
  proof (cases q)
    case Nil
    with 3 show ?thesis by (auto split: sum.splits option.splits)
  next
    case (Cons y ys)
    with 3(3) have "y \<noteq> x" by auto
    with 3(1) Cons show ?thesis
      by (auto split: sum.splits option.splits simp: update_conv' delete_conv')
  qed
next
  case (4 f es x y ys)
  from 4(2) obtain t0 t1 where t0: "map_of es x = Some t0"
    and t1: "alter f t0 (y # ys) = Inr t1" and t': "t' = Dir (AList.update x t1 es)"
    by (auto split: sum.splits option.splits)
  show ?case
  proof (cases q)
    case Nil
    with t' show ?thesis by simp
  next
    case (Cons z zs)
    show ?thesis
    proof (cases "z = x")
      case True
      with 4(4) Cons have "\<not> prefix (y # ys) zs" by simp
      from 4(1) [OF t0 t1 _ this] True Cons t0 t' show ?thesis
        by (simp add: update_conv')
    next
      case False
      with Cons t' show ?thesis by (simp add: update_conv')
    qed
  qed
qed

text \<open>At \<open>p\<close> and below there is what \<open>f\<close> put there.\<close>

lemma alter_at:
  "alter f t p = Inr t' \<Longrightarrow> p \<noteq> [] \<Longrightarrow>
     \<exists>r. f (lookup t p) = Inr r \<and> lookup t' p = r"
proof (induction f t p arbitrary: t' rule: alter.induct)
  case (3 f es x)
  then show ?case
    by (auto split: sum.splits option.splits simp: update_conv' delete_conv')
next
  case (4 f es x y ys)
  from 4(2) obtain t0 t1 where t0: "map_of es x = Some t0"
    and t1: "alter f t0 (y # ys) = Inr t1" and t': "t' = Dir (AList.update x t1 es)"
    by (auto split: sum.splits option.splits)
  from 4(1) [OF t0 t1] t0 t' show ?case
    by (simp add: update_conv')
qed simp_all

lemma wf_entries_iff: "wf_entries es \<longleftrightarrow> (\<forall>(n, t) \<in> set es. wf_node t)"
  by (induction es) auto

lemma set_update_subset: "set (AList.update k v al) \<subseteq> insert (k, v) (set al)"
  by (induction al) auto

lemma set_delete_subset: "set (AList.delete k al) \<subseteq> set al"
  by (induction al) auto

lemma wf_update: "wf_node (Dir es) \<Longrightarrow> wf_node t \<Longrightarrow> wf_node (Dir (AList.update x t es))"
  using set_update_subset [of x t es]
  by (auto simp: wf_entries_iff distinct_update)

lemma wf_delete: "wf_node (Dir es) \<Longrightarrow> wf_node (Dir (AList.delete x es))"
  using set_delete_subset [of x es]
  by (auto simp: wf_entries_iff distinct_delete)

lemma wf_map_of: "wf_node (Dir es) \<Longrightarrow> map_of es x = Some t \<Longrightarrow> wf_node t"
  by (auto simp: wf_entries_iff dest: map_of_SomeD)

lemma alter_wf:
  "alter f t p = Inr t' \<Longrightarrow> wf_node t \<Longrightarrow> (\<And>e n. f e = Inr (Some n) \<Longrightarrow> wf_node n) \<Longrightarrow> wf_node t'"
proof (induction f t p arbitrary: t' rule: alter.induct)
  case (3 f es x)
  then show ?case
    by (auto split: sum.splits option.splits intro!: wf_update wf_delete simp del: wf_node.simps)
next
  case (4 f es x y ys)
  from 4(2) obtain t0 t1 where t0: "map_of es x = Some t0"
    and t1: "alter f t0 (y # ys) = Inr t1" and t': "t' = Dir (AList.update x t1 es)"
    by (auto split: sum.splits option.splits)
  have "wf_node t1" using 4(1) [OF t0 t1 wf_map_of [OF 4(3) t0]] 4(4) by blast
  with 4(3) t' show ?case by (simp add: wf_update del: wf_node.simps)
qed simp_all

lemma view_None_below:
  "view r p = None \<Longrightarrow> view r (p @ q) = None"
  by (auto simp: view_def fs_lookup_def lookup_append split: option.splits)

lemma view_File_below:
  "view r p = Some (File c m) \<Longrightarrow> q \<noteq> [] \<Longrightarrow> view r (p @ q) = None"
proof -
  assume a: "view r p = Some (File c m)" and q: "q \<noteq> []"
  then obtain t n where r: "r = Some t" and n: "lookup t p = Some n" and s: "shallow n = File c m"
    by (auto simp: view_def fs_lookup_def split: option.splits)
  from s have "n = File c m" by (cases n) simp_all
  with r n q show ?thesis
    by (simp add: view_def fs_lookup_def lookup_append lookup_File_below)
qed

lemma view_prefix_Dir:
  assumes "view r (p @ q) \<noteq> None" and "q \<noteq> []"
  shows "view r p = Some (Dir [])"
proof -
  from assms(1) obtain t where r: "r = Some t" and l: "lookup t (p @ q) \<noteq> None"
    by (auto simp: view_def fs_lookup_def split: option.splits)
  from l obtain n where n: "lookup t p = Some n" and ln: "lookup n q \<noteq> None"
    by (auto simp: lookup_append split: option.splits)
  from ln assms(2) have "shallow n = Dir []"
    by (cases n) (simp_all add: lookup_File_below)
  with r n show ?thesis by (simp add: view_def fs_lookup_def)
qed

lemma fs_alter_frame:
  assumes "fs_alter f r p = Inr r'" and "p \<noteq> []" and "\<not> prefix p q"
  shows "view r' q = view r q"
proof -
  from assms(1,2) obtain t t' where r: "r = Some t" and r': "r' = Some t'"
    and a: "alter f t p = Inr t'"
    by (auto simp: fs_alter_def split: list.splits option.splits sum.splits)
  from alter_frame [OF a assms(2,3)] r r' show ?thesis
    by (simp add: view_def fs_lookup_def)
qed

lemma fs_alter_at:
  assumes "fs_alter f r p = Inr r'" and "p \<noteq> []"
  shows "\<exists>e. f (fs_lookup r p) = Inr e \<and> fs_lookup r' p = e"
proof -
  from assms obtain t t' where r: "r = Some t" and r': "r' = Some t'"
    and a: "alter f t p = Inr t'"
    by (auto simp: fs_alter_def split: list.splits option.splits sum.splits)
  from alter_at [OF a assms(2)] r r' show ?thesis
    by (simp add: fs_lookup_def)
qed

lemma fs_alter_wf:
  assumes "fs_alter f r p = Inr r'" and "p \<noteq> []" and "wf_fs r"
    and "\<And>e n. f e = Inr (Some n) \<Longrightarrow> wf_node n"
  shows "wf_fs r'"
proof -
  from assms(1,2) obtain t t' where r: "r = Some t" and r': "r' = Some t'"
    and a: "alter f t p = Inr t'"
    by (auto simp: fs_alter_def split: list.splits option.splits sum.splits)
  from alter_wf [OF a _ assms(4)] assms(3) r r' show ?thesis
    by (simp add: wf_fs_def)
qed

text \<open>The four operations, seen through \<open>view\<close>.\<close>

lemma os_mkdir_view:
  assumes "os_mkdir r p = Inr r'"
  shows "view r p = None \<and> (\<forall>q. view r' q = (if q = p then Some (Dir []) else view r q))"
proof (cases "p = []")
  case True
  with assms have r: "r = None" and r': "r' = Some (Dir [])"
    by (auto simp: os_mkdir_def fs_alter_def mkdir_entry_def split: option.splits)
  have "view (Some (Dir [])) q = (if q = [] then Some (Dir []) else None)" for q
    by (cases q) (simp_all add: view_def fs_lookup_def)
  with True r r' show ?thesis by (simp add: view_def fs_lookup_def)
next
  case False
  from assms have a: "fs_alter mkdir_entry r p = Inr r'" by (simp add: os_mkdir_def)
  from fs_alter_at [OF a False] have before: "fs_lookup r p = None"
    and after: "fs_lookup r' p = Some (Dir [])"
    by (auto simp: mkdir_entry_def split: option.splits)
  have vb: "view r p = None" using before by (simp add: view_def)
  have "view r' q = (if q = p then Some (Dir []) else view r q)" for q
  proof (cases "prefix p q")
    case False
    with fs_alter_frame [OF a \<open>p \<noteq> []\<close> False] show ?thesis by auto
  next
    case True
    then obtain q' where q: "q = p @ q'" by (auto simp: prefix_def)
    show ?thesis
    proof (cases "q' = []")
      case True
      with q after show ?thesis by (simp add: view_def)
    next
      case False
      from after obtain t' where "r' = Some t'" "lookup t' p = Some (Dir [])"
        by (auto simp: fs_lookup_def split: option.splits)
      then have "view r' (p @ q') = None"
        using False by (simp add: view_def fs_lookup_def lookup_append lookup_empty_Dir_below)
      with q False view_None_below [OF vb, of q'] show ?thesis by simp
    qed
  qed
  with vb show ?thesis by blast
qed

lemma os_mkdir_wf: "os_mkdir r p = Inr r' \<Longrightarrow> wf_fs r \<Longrightarrow> wf_fs r'"
proof (cases "p = []")
  case True
  assume "os_mkdir r p = Inr r'"
  with True show ?thesis
    by (auto simp: os_mkdir_def fs_alter_def mkdir_entry_def wf_fs_def split: option.splits)
next
  case False
  assume a: "os_mkdir r p = Inr r'" and w: "wf_fs r"
  show ?thesis
  proof (rule fs_alter_wf [of mkdir_entry r p r'])
    show "fs_alter mkdir_entry r p = Inr r'" using a by (simp add: os_mkdir_def)
    show "wf_node n" if "mkdir_entry e = Inr (Some n)" for e n
      using that by (auto simp: mkdir_entry_def split: option.splits)
  qed (use False w in auto)
qed

lemma write_view:
  assumes a: "fs_alter (write_entry c m) r p = Inr r'" and p: "p \<noteq> []"
  shows "(view r p = None \<or> (\<exists>c' m'. view r p = Some (File c' m'))) \<and>
         (\<forall>q. view r' q = (if q = p then Some (File c m) else view r q))"
proof -
  from fs_alter_at [OF a p]
  have before: "fs_lookup r p = None \<or> (\<exists>c' m'. fs_lookup r p = Some (File c' m'))"
    and after: "fs_lookup r' p = Some (File c m)"
    by (auto simp: write_entry_def split: option.splits node.splits)
  from before have vb: "view r p = None \<or> (\<exists>c' m'. view r p = Some (File c' m'))"
    by (auto simp: view_def)
  from after have va: "view r' p = Some (File c m)" by (simp add: view_def)
  have "view r' q = (if q = p then Some (File c m) else view r q)" for q
  proof (cases "prefix p q")
    case False
    with fs_alter_frame [OF a p False] show ?thesis by auto
  next
    case True
    then obtain q' where q: "q = p @ q'" by (auto simp: prefix_def)
    show ?thesis
    proof (cases "q' = []")
      case True
      with q va show ?thesis by simp
    next
      case False
      have "view r (p @ q') = None"
        using vb False view_None_below view_File_below by blast
      moreover have "view r' (p @ q') = None"
        using va False view_File_below by blast
      ultimately show ?thesis using q False by simp
    qed
  qed
  with vb show ?thesis by blast
qed

lemma write_wf:
  assumes "fs_alter (write_entry c m) r p = Inr r'" and "p \<noteq> []" and "wf_fs r"
  shows "wf_fs r'"
proof (rule fs_alter_wf [of "write_entry c m" r p r'])
  show "wf_node n" if "write_entry c m e = Inr (Some n)" for e n
    using that by (auto simp: write_entry_def split: option.splits node.splits)
qed (use assms in auto)

lemma os_remove_view:
  assumes a: "os_remove r p = Inr r'" and p: "p \<noteq> []"
  shows "(\<exists>c m. view r p = Some (File c m)) \<and>
         (\<forall>q. view r' q = (if q = p then None else view r q))"
proof -
  from a have a': "fs_alter remove_entry r p = Inr r'" by (simp add: os_remove_def)
  from fs_alter_at [OF a' p]
  have before: "\<exists>c m. fs_lookup r p = Some (File c m)" and after: "fs_lookup r' p = None"
    by (auto simp: remove_entry_def split: option.splits node.splits)
  from before have vb: "\<exists>c m. view r p = Some (File c m)" by (auto simp: view_def)
  from after have va: "view r' p = None" by (simp add: view_def)
  have "view r' q = (if q = p then None else view r q)" for q
  proof (cases "prefix p q")
    case False
    with fs_alter_frame [OF a' p False] show ?thesis by auto
  next
    case True
    then obtain q' where q: "q = p @ q'" by (auto simp: prefix_def)
    show ?thesis
    proof (cases "q' = []")
      case True
      with q va show ?thesis by simp
    next
      case False
      have "view r (p @ q') = None" using vb False view_File_below by blast
      moreover have "view r' (p @ q') = None" using va view_None_below by blast
      ultimately show ?thesis using q False by simp
    qed
  qed
  with vb show ?thesis by blast
qed

lemma os_remove_wf:
  assumes "os_remove r p = Inr r'" and "p \<noteq> []" and "wf_fs r"
  shows "wf_fs r'"
proof (rule fs_alter_wf [of remove_entry r p r'])
  show "fs_alter remove_entry r p = Inr r'" using assms by (simp add: os_remove_def)
  show "wf_node n" if "remove_entry e = Inr (Some n)" for e n
    using that by (auto simp: remove_entry_def split: option.splits node.splits)
qed (use assms in auto)

lemma shutil_rmtree_view:
  assumes a: "shutil_rmtree r p = Inr r'" and p: "p \<noteq> []"
  shows "view r p = Some (Dir []) \<and>
         (\<forall>q. view r' q = (if prefix p q then None else view r q))"
proof -
  from a have a': "fs_alter rmtree_entry r p = Inr r'" by (simp add: shutil_rmtree_def)
  from fs_alter_at [OF a' p]
  have before: "\<exists>es. fs_lookup r p = Some (Dir es)" and after: "fs_lookup r' p = None"
    by (auto simp: rmtree_entry_def split: option.splits node.splits)
  from before have vb: "view r p = Some (Dir [])" by (auto simp: view_def)
  from after have va: "view r' p = None" by (simp add: view_def)
  have "view r' q = (if prefix p q then None else view r q)" for q
  proof (cases "prefix p q")
    case False
    with fs_alter_frame [OF a' p False] show ?thesis by auto
  next
    case True
    then obtain q' where q: "q = p @ q'" by (auto simp: prefix_def)
    with True view_None_below [OF va, of q'] show ?thesis by simp
  qed
  with vb show ?thesis by blast
qed

lemma shutil_rmtree_wf:
  assumes "shutil_rmtree r p = Inr r'" and "p \<noteq> []" and "wf_fs r"
  shows "wf_fs r'"
proof (rule fs_alter_wf [of rmtree_entry r p r'])
  show "fs_alter rmtree_entry r p = Inr r'" using assms by (simp add: shutil_rmtree_def)
  show "wf_node n" if "rmtree_entry e = Inr (Some n)" for e n
    using that by (auto simp: rmtree_entry_def split: option.splits node.splits)
qed (use assms in auto)

declare os_makedirs.simps [simp del]

subsection \<open>Loops and the first walk\<close>

lemma grows_refl: "grows S R R"
  by (simp add: grows_def)

lemma grows_iff: "grows S R R' \<longleftrightarrow> (\<forall>q. grows_at (view S q) (view R q) (view R' q))"
  by (simp add: grows_def grows_at_def)

lemma grows_at_trans: "grows_at s v v' \<Longrightarrow> grows_at s v' v'' \<Longrightarrow> grows_at s v v''"
  unfolding grows_at_def by (elim disjE conjE exE) auto

lemma grows_trans: "grows S R R' \<Longrightarrow> grows S R' R'' \<Longrightarrow> grows S R R''"
  unfolding grows_iff using grows_at_trans by blast

lemma prunes_refl: "prunes sf R R"
  by (simp add: prunes_def)

lemma prunes_trans: "prunes sf R R' \<Longrightarrow> prunes sf R' R'' \<Longrightarrow> prunes sf R R''"
  unfolding prunes_def by metis

lemma for_each_append:
  "for_each body (xs @ ys) s =
     (case for_each body xs s of Inl err \<Rightarrow> Inl err | Inr s' \<Rightarrow> for_each body ys s')"
  by (induction xs arbitrary: s) (auto split: sum.splits)

lemma for_each_visits:
  assumes "for_each body xs s = Inr s'" and "P s"
    and step: "\<And>x s1 s2. x \<in> set xs \<Longrightarrow> P s1 \<Longrightarrow> body x s1 = Inr s2 \<Longrightarrow> P s2 \<and> R s1 s2"
    and refl: "\<And>a. R a a"
    and trans: "\<And>a b c. R a b \<Longrightarrow> R b c \<Longrightarrow> R a c"
  shows "P s' \<and> R s s' \<and>
         (\<forall>x\<in>set xs. \<exists>s1 s2. P s1 \<and> R s s1 \<and> body x s1 = Inr s2 \<and> R s2 s')"
  using assms(1,2) step
proof (induction xs arbitrary: s)
  case Nil
  then show ?case using refl by simp
next
  case (Cons x xs)
  from Cons.prems(1) obtain s1 where b: "body x s = Inr s1" and r: "for_each body xs s1 = Inr s'"
    by (auto split: sum.splits)
  from Cons.prems(3) [of x s s1] Cons.prems(2) b have p1: "P s1" and r1: "R s s1" by auto
  have ih: "P s' \<and> R s1 s' \<and>
         (\<forall>y\<in>set xs. \<exists>s2 s3. P s2 \<and> R s1 s2 \<and> body y s2 = Inr s3 \<and> R s3 s')"
    by (rule Cons.IH [OF r p1]) (use Cons.prems(3) in auto)
  have "\<exists>s2 s3. P s2 \<and> R s s2 \<and> body y s2 = Inr s3 \<and> R s3 s'" if "y \<in> set (x # xs)" for y
  proof (cases "y = x")
    case True
    with b ih Cons.prems(2) refl show ?thesis by blast
  next
    case False
    with that have "y \<in> set xs" by simp
    with ih obtain s2 s3 where "P s2" "R s1 s2" "body y s2 = Inr s3" "R s3 s'" by blast
    with r1 trans show ?thesis by blast
  qed
  with ih r1 trans show ?case by blast
qed

lemma os_makedirs_view:
  "os_makedirs pf r p = Inr r' \<Longrightarrow>
     view r' p = Some (Dir []) \<and>
     (\<forall>q. view r' q = view r q \<or> (view r q = None \<and> view r' q = Some (Dir [])))"
proof (induction pf r p arbitrary: r' rule: os_makedirs.induct)
  case (1 pf r p)
  show ?case
  proof (cases "p \<noteq> [] \<and> \<not> path_exists r (butlast p)")
    case False
    with 1(2) have "os_mkdir r p = Inr r'"
      by (subst (asm) os_makedirs.simps) (simp split: if_splits)
    from os_mkdir_view [OF this] show ?thesis by auto
  next
    case True
    show ?thesis
    proof (cases "os_makedirs pf r (butlast p)")
      case (Inr r1)
      with True 1(2) have m: "os_mkdir r1 p = Inr r'"
        by (subst (asm) os_makedirs.simps) simp
      from 1(1) [OF True Inr]
      have g: "\<forall>q. view r1 q = view r q \<or> (view r q = None \<and> view r1 q = Some (Dir []))"
        by simp
      from os_mkdir_view [OF m] g show ?thesis by metis
    next
      case (Inl e)
      with True 1(2) have "os_mkdir r p = Inr r'"
        by (subst (asm) os_makedirs.simps) (simp split: if_splits)
      from os_mkdir_view [OF this] show ?thesis by auto
    qed
  qed
qed

lemma os_makedirs_grows: "os_makedirs pf r p = Inr r' \<Longrightarrow> grows S r r'"
  using os_makedirs_view [of pf r p r'] by (auto simp: grows_def)

lemma path_exists_view: "path_exists r p \<longleftrightarrow> view r p \<noteq> None"
  by (simp add: path_exists_def view_def split: option.splits)

lemma path_isdir_view: "path_isdir r p \<longleftrightarrow> view r p = Some (Dir [])"
proof -
  have "is_dir t \<longleftrightarrow> shallow t = Dir []" for t by (cases t) simp_all
  then show ?thesis by (auto simp: path_isdir_def view_def split: option.splits)
qed

lemma view_File_iff: "view r p = Some (File c m) \<longleftrightarrow> fs_lookup r p = Some (File c m)"
proof -
  have "shallow t = File c m \<longleftrightarrow> t = File c m" for t by (cases t) simp_all
  then show ?thesis by (auto simp: view_def)
qed

lemma ensure_dir_grows:
  assumes "ensure_dir pf d st = Inr st'"
  shows "grows S (replica st) (replica st') \<and> hash_calls st' = hash_calls st"
proof (cases "path_exists (replica st) d")
  case True
  with assms show ?thesis by (simp add: ensure_dir_def grows_refl)
next
  case False
  with assms obtain r' where "os_makedirs pf (replica st) d = Inr r'" and "replica st' = r'"
    and "hash_calls st' = hash_calls st"
    by (auto simp: ensure_dir_def on_replica_def logging_info_def split: sum.splits)
  with os_makedirs_grows show ?thesis by simp
qed

text \<open>A copy onto a path that holds no directory writes the file of the source there.\<close>

lemma copy_and_log_view:
  assumes c: "copy_and_log unreadable S f entry st = Inr st'"
    and f: "f \<noteq> []" and nd: "view (replica st) f \<noteq> Some (Dir [])"
  shows "\<exists>c m. fs_lookup S f = Some (File c m) \<and> \<not> unreadable f \<and>
           (\<forall>q. view (replica st') q = (if q = f then Some (File c m) else view (replica st) q)) \<and>
           log st' = log st @ [entry f] \<and> hash_calls st' = hash_calls st"
proof -
  from nd have nisdir: "\<not> path_isdir (replica st) f" by (simp add: path_isdir_view)
  from c obtain r' where cp: "shutil_copy2 unreadable S f (replica st) f = Inr r'"
    and st': "st' = logging_info (entry f) (st\<lparr>replica := r'\<rparr>)"
    by (auto simp: copy_and_log_def on_replica_def split: sum.splits)
  from cp nisdir obtain c m where rd: "open_read unreadable S f = Inr (c, m)"
    and w: "fs_alter (write_entry c m) (replica st) f = Inr r'"
    by (auto simp: shutil_copy2_def split: sum.splits)
  from rd have src: "fs_lookup S f = Some (File c m)" and u: "\<not> unreadable f"
    by (auto simp: open_read_def split: if_splits option.splits node.splits)
  from write_view [OF w f] st' src u show ?thesis
    by (auto simp: logging_info_def)
qed

lemma copy_and_log_grows:
  assumes c: "copy_and_log unreadable S f entry st = Inr st'"
    and f: "f \<noteq> []"
    and nd: "view (replica st) f = None \<or>
             (\<exists>c m c' m'. view S f = Some (File c m) \<and> view (replica st) f = Some (File c' m') \<and>
                file_digest c' \<noteq> file_digest c)"
  shows "grows S (replica st) (replica st')"
proof -
  from nd have nd': "view (replica st) f \<noteq> Some (Dir [])" by auto
  from copy_and_log_view [OF c f nd'] obtain c m where
    src: "fs_lookup S f = Some (File c m)" and
    v: "\<forall>q. view (replica st') q = (if q = f then Some (File c m) else view (replica st) q)"
    by blast
  from src have vs: "view S f = Some (File c m)" by (simp add: view_File_iff)
  show ?thesis
    unfolding grows_def
  proof (intro allI)
    fix q
    show "view (replica st') q = view (replica st) q \<or>
          (view (replica st) q = None \<and> view (replica st') q = Some (Dir [])) \<or>
          (view (replica st') q = view S q \<and>
           (\<exists>c m. view S q = Some (File c m) \<and>
              (view (replica st) q = None \<or>
               (\<exists>c' m'. view (replica st) q = Some (File c' m') \<and>
                  file_digest c' \<noteq> file_digest c))))"
    proof (cases "q = f")
      case False
      with v show ?thesis by simp
    next
      case True
      with v vs nd show ?thesis by auto
    qed
  qed
qed

lemma path_isfile_iff: "path_isfile r p \<longleftrightarrow> (\<exists>c m. fs_lookup r p = Some (File c m))"
  by (auto simp: path_isfile_def split: option.splits node.splits)

lemma good_grows:
  assumes "grows S R R'" and "good S R f"
  shows "good S R' f"
proof -
  from assms(2) obtain c m c' m' where s: "fs_lookup S f = Some (File c m)"
    and r: "fs_lookup R f = Some (File c' m')" and d: "file_digest c' = file_digest c"
    by (auto simp: good_def)
  from s r have vs: "view S f = Some (File c m)" and vr: "view R f = Some (File c' m')"
    by (simp_all add: view_File_iff)
  from assms(1) [unfolded grows_def, rule_format, of f] vs vr
  have "view R' f = Some (File c' m') \<or> view R' f = Some (File c m)" by auto
  then have "fs_lookup R' f = Some (File c' m') \<or> fs_lookup R' f = Some (File c m)"
    by (simp add: view_File_iff)
  with s d show ?thesis by (auto simp: good_def)
qed

lemma hash_file_Inr:
  assumes "hash_file u r p st = Inr (d, st')"
  shows "\<exists>c m. fs_lookup r p = Some (File c m) \<and> \<not> u p \<and> d = file_digest c \<and>
           st' = st\<lparr>hash_calls := hash_calls st + 1, hashed := hashed st @ [p]\<rparr>"
  using assms
  by (auto simp: hash_file_def calculate_hash_def open_read_def Let_def
           split: sum.splits if_splits option.splits node.splits)

lemma sync_file_log_name:
  "sync_file u S ln d ln s = Inr s"
  by (cases s) (simp add: sync_file_def)

lemma sync_file_Inr:
  assumes ok: "sync_file u S ln d n (st, sf) = Inr (st', sf')" and n: "n \<noteq> ln"
  shows "grows S (replica st) (replica st') \<and> sf' = sf(d @ [n] \<mapsto> d @ [n]) \<and>
         good S (replica st') (d @ [n]) \<and> \<not> u (d @ [n])"
proof (cases "path_exists (replica st) (d @ [n])")
  case False
  with ok n have c: "copy_and_log u S (d @ [n]) FileCopied st = Inr st'"
    and sf': "sf' = sf(d @ [n] \<mapsto> d @ [n])"
    by (auto simp: sync_file_def Let_def split: sum.splits)
  from False have v: "view (replica st) (d @ [n]) = None" by (simp add: path_exists_view)
  then have nd: "view (replica st) (d @ [n]) \<noteq> Some (Dir [])" by simp
  from copy_and_log_view [OF c _ nd] obtain c0 m0 where
    "fs_lookup S (d @ [n]) = Some (File c0 m0)"
    "view (replica st') (d @ [n]) = Some (File c0 m0)" and nu: "\<not> u (d @ [n])" by auto
  then have "good S (replica st') (d @ [n])" by (auto simp: good_def view_File_iff)
  with copy_and_log_grows [of u S "d @ [n]" FileCopied st st', OF c] v sf' nu
  show ?thesis by simp
next
  case True
  with ok n obtain hs st1 hr st2 where
    h1: "hash_file u S (d @ [n]) st = Inr (hs, st1)" and
    h2: "hash_file no_faults (replica st1) (d @ [n]) st1 = Inr (hr, st2)" and
    rest: "(if hs \<noteq> hr
            then (case copy_and_log u S (d @ [n]) FileUpdated st2 of
                    Inl err \<Rightarrow> Inl err
                  | Inr st' \<Rightarrow> Inr (st', sf(d @ [n] \<mapsto> d @ [n])))
            else Inr (st2, sf(d @ [n] \<mapsto> d @ [n]))) = Inr (st', sf')"
    by (auto simp: sync_file_def Let_def split: sum.splits prod.splits)
  from hash_file_Inr [OF h1] obtain c m where s: "fs_lookup S (d @ [n]) = Some (File c m)"
    and hs: "hs = file_digest c"
    and st1: "st1 = st\<lparr>hash_calls := hash_calls st + 1, hashed := hashed st @ [d @ [n]]\<rparr>"
    and nu: "\<not> u (d @ [n])"
    by blast
  from hash_file_Inr [OF h2] st1 obtain c' m' where
    r: "fs_lookup (replica st) (d @ [n]) = Some (File c' m')"
    and hr: "hr = file_digest c'" and r2: "replica st2 = replica st"
    by auto
  show ?thesis
  proof (cases "hs = hr")
    case True
    with rest have "st' = st2" "sf' = sf(d @ [n] \<mapsto> d @ [n])" by auto
    with r2 s r hs hr True nu show ?thesis by (auto simp: good_def grows_refl)
  next
    case False
    with rest have c: "copy_and_log u S (d @ [n]) FileUpdated st2 = Inr st'"
      and sf': "sf' = sf(d @ [n] \<mapsto> d @ [n])"
      by (auto split: sum.splits)
    from r r2 have nd: "view (replica st2) (d @ [n]) \<noteq> Some (Dir [])"
      by (simp add: view_def)
    from copy_and_log_view [OF c _ nd] obtain c0 m0 where
      "fs_lookup S (d @ [n]) = Some (File c0 m0)"
      "view (replica st') (d @ [n]) = Some (File c0 m0)" by auto
    then have gd: "good S (replica st') (d @ [n])" by (auto simp: good_def view_File_iff)
    from s r r2 hs hr False
    have "\<exists>c m c' m'. view S (d @ [n]) = Some (File c m) \<and>
            view (replica st2) (d @ [n]) = Some (File c' m') \<and>
            file_digest c' \<noteq> file_digest c"
      by (auto simp: view_File_iff)
    with copy_and_log_grows [of u S "d @ [n]" FileUpdated st2 st', OF c]
    have "grows S (replica st2) (replica st')" by simp
    with gd sf' r2 nu show ?thesis by simp
  qed
qed

lemma moves1_refl: "moves1 S s s"
  by (simp add: moves1_def grows_refl)

lemma moves1_trans: "moves1 S a b \<Longrightarrow> moves1 S b c \<Longrightarrow> moves1 S a c"
  by (auto simp: moves1_def intro: grows_trans)

lemma mirrored_moves1: "moves1 S s s' \<Longrightarrow> mirrored u S f s \<Longrightarrow> mirrored u S f s'"
  by (auto simp: moves1_def mirrored_def intro: good_grows)

lemma sync_file_step:
  assumes ok: "sync_file u S ln d n s = Inr s'" and k: "keys_ok S ln s"
  shows "keys_ok S ln s' \<and> moves1 S s s' \<and> (n \<noteq> ln \<longrightarrow> mirrored u S (d @ [n]) s')"
proof (cases "n = ln")
  case True
  with ok have "s' = s" by (simp add: sync_file_log_name)
  with k True show ?thesis by (simp add: moves1_refl)
next
  case False
  obtain st sf st' sf' where s: "s = (st, sf)" and s': "s' = (st', sf')"
    by (cases s, cases s') auto
  from sync_file_Inr [OF ok [unfolded s s'] False]
  have g: "grows S (replica st) (replica st')" and sf': "sf' = sf(d @ [n] \<mapsto> d @ [n])"
    and gd: "good S (replica st') (d @ [n])" and nu: "\<not> u (d @ [n])" by auto
  from gd have "path_isfile S (d @ [n])" by (auto simp: good_def path_isfile_iff)
  with k sf' False have "keys_ok S ln s'" by (auto simp: keys_ok_def s s')
  with g sf' gd nu False show ?thesis by (auto simp: moves1_def mirrored_def s s')
qed

lemma phase1_dir_step:
  assumes ok: "phase1_dir pf u S ln (d, dns, fns) s = Inr s'" and k: "keys_ok S ln s"
  shows "keys_ok S ln s' \<and> moves1 S s s' \<and>
         (\<forall>n\<in>set fns. n \<noteq> ln \<longrightarrow> mirrored u S (d @ [n]) s')"
proof -
  obtain st sf where s: "s = (st, sf)" by (cases s)
  from ok s obtain st0 where e: "ensure_dir pf d st = Inr st0"
    and loop: "for_each (sync_file u S ln d) fns (st0, sf) = Inr s'"
    by (auto simp: phase1_dir_def split: sum.splits)
  from ensure_dir_grows [OF e] have m0: "moves1 S s (st0, sf)"
    by (simp add: moves1_def s)
  from k have k0: "keys_ok S ln (st0, sf)" by (simp add: keys_ok_def s)
  have v: "keys_ok S ln s' \<and> moves1 S (st0, sf) s' \<and>
         (\<forall>n\<in>set fns. \<exists>s1 s2. keys_ok S ln s1 \<and> moves1 S (st0, sf) s1 \<and>
              sync_file u S ln d n s1 = Inr s2 \<and> moves1 S s2 s')"
    by (rule for_each_visits [where P = "keys_ok S ln" and R = "moves1 S", OF loop k0])
       (use sync_file_step moves1_refl moves1_trans in blast)+
  have "mirrored u S (d @ [n]) s'" if "n \<in> set fns" "n \<noteq> ln" for n
  proof -
    from v that obtain s1 s2 where "keys_ok S ln s1" "sync_file u S ln d n s1 = Inr s2"
      "moves1 S s2 s'" by blast
    with sync_file_step [of u S ln d n s1 s2] that(2) mirrored_moves1 show ?thesis by blast
  qed
  with v m0 moves1_trans show ?thesis by blast
qed

lemma phase1_loop:
  assumes ok: "for_each (phase1_dir pf u S ln) w s = Inr s'" and k: "keys_ok S ln s"
  shows "keys_ok S ln s' \<and> moves1 S s s' \<and>
         (\<forall>(d, dns, fns)\<in>set w. \<forall>n\<in>set fns. n \<noteq> ln \<longrightarrow> mirrored u S (d @ [n]) s')"
proof -
  have v: "keys_ok S ln s' \<and> moves1 S s s' \<and>
         (\<forall>x\<in>set w. \<exists>s1 s2. keys_ok S ln s1 \<and> moves1 S s s1 \<and>
              phase1_dir pf u S ln x s1 = Inr s2 \<and> moves1 S s2 s')"
  proof (rule for_each_visits [where P = "keys_ok S ln" and R = "moves1 S", OF ok k])
    fix x s1 s2
    assume "x \<in> set w" "keys_ok S ln s1" "phase1_dir pf u S ln x s1 = Inr s2"
    then show "keys_ok S ln s2 \<and> moves1 S s1 s2"
      using phase1_dir_step [of pf u S ln "fst x" "fst (snd x)" "snd (snd x)" s1 s2] by simp
  qed (use moves1_refl moves1_trans in blast)+
  have "mirrored u S (d @ [n]) s'" if "(d, dns, fns) \<in> set w" "n \<in> set fns" "n \<noteq> ln" for d dns fns n
  proof -
    from v that(1) obtain s1 s2 where "keys_ok S ln s1"
      "phase1_dir pf u S ln (d, dns, fns) s1 = Inr s2" "moves1 S s2 s'" by blast
    with phase1_dir_step [of pf u S ln d dns fns s1 s2] that(2,3) mirrored_moves1
    show ?thesis by blast
  qed
  with v show ?thesis by blast
qed

subsection \<open>What the walks list\<close>

lemma walk_topdown_complete:
  "lookup t q = Some (Dir es) \<Longrightarrow> (d @ q, dirnames es, filenames es) \<in> set (walk_topdown d t)"
proof (induction q arbitrary: t d)
  case Nil
  then show ?case by simp
next
  case (Cons x xs)
  from Cons.prems obtain es0 t1 where t: "t = Dir es0" and m: "map_of es0 x = Some t1"
    and l: "lookup t1 xs = Some (Dir es)"
    by (cases t) (auto split: option.splits)
  from l have dir: "is_dir t1" by (cases t1; cases xs) simp_all
  from m have "(x, t1) \<in> set es0" by (rule map_of_SomeD)
  with dir have mem: "(x, t1) \<in> set (filter (\<lambda>(n, t). is_dir t) es0)" by simp
  from Cons.IH [OF l, of "d @ [x]"]
  have "(d @ x # xs, dirnames es, filenames es) \<in> set (walk_topdown (d @ [x]) t1)" by simp
  with mem t show ?case by (auto intro!: bexI [of _ "(x, t1)"])
qed

lemma walk_bottomup_set: "set (walk_bottomup d t) = set (walk_topdown d t)"
  by (induction d t rule: walk_topdown.induct) auto

lemma filenames_complete: "map_of es n = Some (File c m) \<Longrightarrow> n \<in> set (filenames es)"
proof -
  assume "map_of es n = Some (File c m)"
  then have "(n, File c m) \<in> set es" by (rule map_of_SomeD)
  then have "(n, File c m) \<in> set (filter (\<lambda>(n, t). \<not> is_dir t) es)" by simp
  then show ?thesis unfolding filenames_def by (metis fst_conv image_eqI set_map)
qed

text \<open>Every regular file below the root is in the listing of its directory.\<close>

lemma file_listed:
  assumes "fs_lookup r f = Some (File c m)" and "f \<noteq> []"
  shows "\<exists>d dns fns n. (d, dns, fns) \<in> set (os_walk r b) \<and> f = d @ [n] \<and> n \<in> set fns"
proof -
  from assms(1) obtain t where r: "r = Some t" and l: "lookup t f = Some (File c m)"
    by (auto simp: fs_lookup_def split: option.splits)
  from assms(2) have f: "f = butlast f @ [last f]" by simp
  from l f obtain n0 where p: "lookup t (butlast f) = Some n0"
    and c: "lookup n0 [last f] = Some (File c m)"
    by (metis (no_types, lifting) lookup_append option.case_eq_if option.collapse option.distinct(1))
  from c obtain es where n0: "n0 = Dir es" and m: "map_of es (last f) = Some (File c m)"
    by (cases n0) (auto split: option.splits)
  from walk_topdown_complete [of t "butlast f" es "[]"] p n0
  have "(butlast f, dirnames es, filenames es) \<in> set (walk_topdown [] t)" by simp
  then have "(butlast f, dirnames es, filenames es) \<in> set (os_walk r b)"
    by (simp add: os_walk_def r walk_bottomup_set)
  with f filenames_complete [OF m] show ?thesis by blast
qed

subsection \<open>The second walk\<close>

lemma restore_file_grows:
  assumes "restore_file u S d n st = Inr st'"
  shows "grows S (replica st) (replica st')"
proof (cases "path_exists (replica st) (d @ [n])")
  case True
  with assms show ?thesis by (simp add: restore_file_def grows_refl)
next
  case False
  with assms have c: "copy_and_log u S (d @ [n]) FileRestored st = Inr st'"
    by (simp add: restore_file_def)
  from False have "view (replica st) (d @ [n]) = None"
    by (simp add: path_exists_view)
  with copy_and_log_grows [of u S "d @ [n]" FileRestored st st', OF c] show ?thesis by simp
qed

lemma moves2_refl: "moves2 S a a"
  by (simp add: moves2_def grows_refl)

lemma moves2_trans: "moves2 S a b \<Longrightarrow> moves2 S b c \<Longrightarrow> moves2 S a c"
  by (auto simp: moves2_def intro: grows_trans)

lemma phase2_dir_grows:
  assumes ok: "phase2_dir pf u S (d, dns, fns) st = Inr st'"
  shows "moves2 S st st'"
proof -
  from ok obtain st0 where e: "ensure_dir pf d st = Inr st0"
    and loop: "for_each (restore_file u S d) fns st0 = Inr st'"
    by (auto simp: phase2_dir_def split: sum.splits)
  have "True \<and> moves2 S st0 st' \<and>
        (\<forall>x\<in>set fns. \<exists>s1 s2. True \<and> moves2 S st0 s1 \<and> restore_file u S d x s1 = Inr s2 \<and> moves2 S s2 st')"
    by (rule for_each_visits [where P = "\<lambda>s. True" and R = "moves2 S", OF loop])
       (use restore_file_grows moves2_refl moves2_trans in \<open>auto simp: moves2_def\<close>)
  with ensure_dir_grows [OF e] grows_trans show ?thesis unfolding moves2_def by blast
qed

lemma phase2_loop:
  assumes ok: "for_each (phase2_dir pf u S) w st = Inr st'"
  shows "grows S (replica st) (replica st')"
proof -
  have "True \<and> moves2 S st st' \<and>
        (\<forall>x\<in>set w. \<exists>s1 s2. True \<and> moves2 S st s1 \<and> phase2_dir pf u S x s1 = Inr s2 \<and> moves2 S s2 st')"
  proof (rule for_each_visits [where P = "\<lambda>s. True" and R = "moves2 S", OF ok])
    fix x s1 s2
    assume "phase2_dir pf u S x s1 = Inr s2"
    then show "True \<and> moves2 S s1 s2"
      using phase2_dir_grows [of pf u S "fst x" "fst (snd x)" "snd (snd x)" s1 s2] by simp
  qed (use moves2_refl moves2_trans in blast)+
  then show ?thesis by (simp add: moves2_def)
qed

subsection \<open>The walk over the replica\<close>

lemma moves3_refl: "moves3 sf a a"
  by (simp add: moves3_def prunes_refl)

lemma moves3_trans: "moves3 sf a b \<Longrightarrow> moves3 sf b c \<Longrightarrow> moves3 sf a c"
  by (auto simp: moves3_def intro: prunes_trans)

lemma gone_moves3:
  "moves3 sf st st' \<Longrightarrow> view (replica st) f = None \<Longrightarrow> view (replica st') f = None"
  unfolding moves3_def prunes_def by metis

lemma prune_file_step:
  assumes ok: "prune_file sf d n st = Inr st'"
  shows "moves3 sf st st' \<and> (sf (d @ [n]) = None \<longrightarrow> view (replica st') (d @ [n]) = None)"
proof (cases "sf (d @ [n]) = None \<and> path_exists (replica st) (d @ [n])")
  case False
  with ok have "st' = st" by (auto simp: prune_file_def Let_def split: if_splits)
  with False show ?thesis by (auto simp: moves3_refl path_exists_view)
next
  case True
  with ok obtain r' where rm: "os_remove (replica st) (d @ [n]) = Inr r'"
    and r': "replica st' = r'"
    by (auto simp: prune_file_def Let_def on_replica_def logging_info_def split: sum.splits)
  from os_remove_view [OF rm] r' True show ?thesis
    by (auto simp: moves3_def prunes_def)
qed

lemma prune_dir_step:
  assumes ok: "prune_dir S d n st = Inr st'"
    and keys: "\<And>f. sf f \<noteq> None \<Longrightarrow> path_exists S f"
  shows "moves3 sf st st'"
proof (cases "path_exists S (d @ [n])")
  case True
  with ok show ?thesis by (simp add: prune_dir_def moves3_refl)
next
  case False
  with ok obtain r' where rm: "shutil_rmtree (replica st) (d @ [n]) = Inr r'"
    and r': "replica st' = r'"
    by (auto simp: prune_dir_def Let_def on_replica_def logging_info_def split: sum.splits)
  have "sf q = None" if "prefix (d @ [n]) q" for q
  proof (rule ccontr)
    assume "sf q \<noteq> None"
    then have e: "view S q \<noteq> None" using keys by (simp add: path_exists_view)
    from that obtain q' where q: "q = (d @ [n]) @ q'" by (auto simp: prefix_def)
    have "view S (d @ [n]) \<noteq> None"
    proof
      assume "view S (d @ [n]) = None"
      from view_None_below [OF this, of q'] e q show False by simp
    qed
    with False show False by (simp add: path_exists_view)
  qed
  with shutil_rmtree_view [OF rm] r' show ?thesis
    by (auto simp: moves3_def prunes_def)
qed

lemma phase3_dir_step:
  assumes ok: "phase3_dir S sf (d, dns, fns) st = Inr st'"
    and keys: "\<And>f. sf f \<noteq> None \<Longrightarrow> path_exists S f"
  shows "moves3 sf st st' \<and>
         (\<forall>n\<in>set fns. sf (d @ [n]) = None \<longrightarrow> view (replica st') (d @ [n]) = None)"
proof -
  from ok obtain st1 where l1: "for_each (prune_file sf d) fns st = Inr st1"
    and l2: "for_each (prune_dir S d) dns st1 = Inr st'"
    by (auto simp: phase3_dir_def split: sum.splits)
  have v1: "True \<and> moves3 sf st st1 \<and>
        (\<forall>x\<in>set fns. \<exists>s1 s2. True \<and> moves3 sf st s1 \<and> prune_file sf d x s1 = Inr s2 \<and> moves3 sf s2 st1)"
    by (rule for_each_visits [where P = "\<lambda>s. True" and R = "moves3 sf", OF l1])
       (use prune_file_step moves3_refl moves3_trans in blast)+
  have v2: "True \<and> moves3 sf st1 st' \<and>
        (\<forall>x\<in>set dns. \<exists>s1 s2. True \<and> moves3 sf st1 s1 \<and> prune_dir S d x s1 = Inr s2 \<and> moves3 sf s2 st')"
    by (rule for_each_visits [where P = "\<lambda>s. True" and R = "moves3 sf", OF l2])
       (use prune_dir_step [OF _ keys] moves3_refl moves3_trans in blast)+
  have "view (replica st') (d @ [n]) = None" if "n \<in> set fns" "sf (d @ [n]) = None" for n
  proof -
    from v1 that(1) obtain s1 s2 where "prune_file sf d n s1 = Inr s2" "moves3 sf s2 st1" by blast
    with prune_file_step [of sf d n s1 s2] that(2) gone_moves3
    have "view (replica st1) (d @ [n]) = None" by blast
    with v2 gone_moves3 show ?thesis by blast
  qed
  with v1 v2 moves3_trans show ?thesis by blast
qed

lemma phase3_loop:
  assumes ok: "for_each (phase3_dir S sf) w st = Inr st'"
    and keys: "\<And>f. sf f \<noteq> None \<Longrightarrow> path_exists S f"
  shows "prunes sf (replica st) (replica st') \<and>
         (\<forall>(d, dns, fns)\<in>set w. \<forall>n\<in>set fns.
            sf (d @ [n]) = None \<longrightarrow> view (replica st') (d @ [n]) = None)"
proof -
  have v: "True \<and> moves3 sf st st' \<and>
        (\<forall>x\<in>set w. \<exists>s1 s2. True \<and> moves3 sf st s1 \<and> phase3_dir S sf x s1 = Inr s2 \<and> moves3 sf s2 st')"
  proof (rule for_each_visits [where P = "\<lambda>s. True" and R = "moves3 sf", OF ok])
    fix x s1 s2
    assume "phase3_dir S sf x s1 = Inr s2"
    then show "True \<and> moves3 sf s1 s2"
      using phase3_dir_step [of S sf "fst x" "fst (snd x)" "snd (snd x)" s1 s2] keys by simp
  qed (use moves3_refl moves3_trans in blast)+
  have "view (replica st') (d @ [n]) = None"
    if "(d, dns, fns) \<in> set w" "n \<in> set fns" "sf (d @ [n]) = None" for d dns fns n
  proof -
    from v that(1) obtain s1 s2 where "phase3_dir S sf (d, dns, fns) s1 = Inr s2"
      "moves3 sf s2 st'" by blast
    with phase3_dir_step [of S sf d dns fns s1 s2] keys that(2,3) gone_moves3
    show ?thesis by blast
  qed
  with v show ?thesis by (auto simp: moves3_def)
qed

subsection \<open>The whole pass\<close>

lemma sync_folders_phases:
  assumes "sync_folders pf u S sd rd lf st = Inr st'"
  obtains st0 st1 sf st2 where
    "ensure_dir pf [] st = Inr st0"
    "for_each (phase1_dir pf u S (os_path_basename lf)) (os_walk S True) (st0, Map.empty) = Inr (st1, sf)"
    "for_each (phase2_dir pf u S) (os_walk S True) st1 = Inr st2"
    "for_each (phase3_dir S sf) (os_walk (replica st2) False) st2 = Inr st'"
  using assms by (auto simp: sync_folders_def split: if_splits sum.splits prod.splits)

lemma mirror_lemma:
  assumes run: "sync_folders pf u S sd rd lf st = Inr st'"
  shows "(\<forall>f. f \<noteq> [] \<longrightarrow>
            (path_isfile (replica st') f \<longleftrightarrow> path_isfile S f \<and> last f \<noteq> os_path_basename lf)) \<and>
         (\<forall>f. f \<noteq> [] \<and> path_isfile (replica st') f \<longrightarrow>
            (\<exists>c m c' m'. fs_lookup S f = Some (File c m) \<and>
               fs_lookup (replica st') f = Some (File c' m') \<and>
               file_digest c' = file_digest c \<and>
               ((c' = c \<and> m' = m) \<or> fs_lookup (replica st) f = Some (File c' m')))) \<and>
         (\<forall>f. f \<noteq> [] \<and> path_isfile S f \<and> last f \<noteq> os_path_basename lf \<longrightarrow> \<not> u f) \<and>
         (\<forall>f. f \<noteq> [] \<and> path_isfile S f \<and> last f \<noteq> os_path_basename lf \<longrightarrow>
            grows_at (view S f) (view (replica st) f) (view (replica st') f))"
proof -
  let ?ln = "os_path_basename lf"
  from run obtain st0 st1 sf st2 where
    e: "ensure_dir pf [] st = Inr st0" and
    p1: "for_each (phase1_dir pf u S ?ln) (os_walk S True) (st0, Map.empty) = Inr (st1, sf)" and
    p2: "for_each (phase2_dir pf u S) (os_walk S True) st1 = Inr st2" and
    p3: "for_each (phase3_dir S sf) (os_walk (replica st2) False) st2 = Inr st'"
    by (rule sync_folders_phases)
  have k0: "keys_ok S ?ln (st0, Map.empty)" by (simp add: keys_ok_def)
  from phase1_loop [OF p1 k0]
  have k1: "keys_ok S ?ln (st1, sf)" and m1: "moves1 S (st0, Map.empty) (st1, sf)"
    and mir: "\<forall>(d, dns, fns)\<in>set (os_walk S True). \<forall>n\<in>set fns.
                n \<noteq> ?ln \<longrightarrow> mirrored u S (d @ [n]) (st1, sf)"
    by auto
  from k1 have keys: "path_isfile S f \<and> f \<noteq> [] \<and> last f \<noteq> ?ln" if "sf f \<noteq> None" for f
    using that by (simp add: keys_ok_def)
  have keys_ex: "path_exists S f" if "sf f \<noteq> None" for f
    using keys [OF that] by (auto simp: path_isfile_iff path_exists_def)
  have g02: "grows S (replica st) (replica st2)"
    using ensure_dir_grows [OF e] m1 phase2_loop [OF p2]
    by (auto simp: moves1_def intro: grows_trans)
  have g12: "grows S (replica st1) (replica st2)" by (rule phase2_loop [OF p2])
  from phase3_loop [OF p3 keys_ex]
  have pr: "prunes sf (replica st2) (replica st')"
    and gone: "\<forall>(d, dns, fns)\<in>set (os_walk (replica st2) False). \<forall>n\<in>set fns.
                 sf (d @ [n]) = None \<longrightarrow> view (replica st') (d @ [n]) = None"
    by auto
  \<comment> \<open>every file of the source that does not bear the log name is in the dictionary and mirrored\<close>
  have src: "sf f \<noteq> None \<and> good S (replica st2) f \<and> \<not> u f"
    if "f \<noteq> []" "path_isfile S f" "last f \<noteq> ?ln" for f
  proof -
    from that(2) obtain c m where "fs_lookup S f = Some (File c m)"
      by (auto simp: path_isfile_iff)
    from file_listed [OF this that(1), of True] obtain d dns fns n where
      w: "(d, dns, fns) \<in> set (os_walk S True)" and f: "f = d @ [n]" and n: "n \<in> set fns"
      by blast
    from that(3) f have "n \<noteq> ?ln" by simp
    with mir w n f have "mirrored u S f (st1, sf)" by blast
    with g12 good_grows show ?thesis by (auto simp: mirrored_def)
  qed
  \<comment> \<open>what is in the dictionary survives the pruning\<close>
  have kept: "view (replica st') f = view (replica st2) f" if "sf f \<noteq> None" for f
    using pr [unfolded prunes_def, rule_format, of f] that by auto
  \<comment> \<open>a file of the final replica is in the dictionary\<close>
  have final: "sf f \<noteq> None" if "f \<noteq> []" "path_isfile (replica st') f" for f
  proof (rule ccontr)
    assume "\<not> sf f \<noteq> None"
    then have none: "sf f = None" by simp
    from that(2) obtain c m where l': "fs_lookup (replica st') f = Some (File c m)"
      by (auto simp: path_isfile_iff)
    then have v': "view (replica st') f = Some (File c m)" by (simp add: view_File_iff)
    with pr [unfolded prunes_def, rule_format, of f]
    have "view (replica st2) f = Some (File c m)" by auto
    then have "fs_lookup (replica st2) f = Some (File c m)" by (simp add: view_File_iff)
    from file_listed [OF this that(1), of False] obtain d dns fns n where
      "(d, dns, fns) \<in> set (os_walk (replica st2) False)" "f = d @ [n]" "n \<in> set fns"
      by blast
    with gone none have "view (replica st') f = None" by fastforce
    with v' show False by simp
  qed
  have A: "path_isfile (replica st') f \<longleftrightarrow> path_isfile S f \<and> last f \<noteq> ?ln" if "f \<noteq> []" for f
  proof
    assume "path_isfile (replica st') f"
    from keys [OF final [OF that this]] show "path_isfile S f \<and> last f \<noteq> ?ln" by simp
  next
    assume a: "path_isfile S f \<and> last f \<noteq> ?ln"
    with src [OF that] have s: "sf f \<noteq> None" and g: "good S (replica st2) f" by auto
    from g obtain c' m' where "fs_lookup (replica st2) f = Some (File c' m')"
      by (auto simp: good_def)
    then have "view (replica st2) f = Some (File c' m')" by (simp add: view_File_iff)
    with kept [OF s] show "path_isfile (replica st') f"
      by (simp add: view_File_iff path_isfile_iff)
  qed
  have B: "\<exists>c m c' m'. fs_lookup S f = Some (File c m) \<and>
               fs_lookup (replica st') f = Some (File c' m') \<and>
               file_digest c' = file_digest c \<and>
               ((c' = c \<and> m' = m) \<or> fs_lookup (replica st) f = Some (File c' m'))"
    if "f \<noteq> []" "path_isfile (replica st') f" for f
  proof -
    from final [OF that] have s: "sf f \<noteq> None" .
    from A [OF that(1)] that(2) have "path_isfile S f" "last f \<noteq> ?ln" by auto
    from src [OF that(1) this] have "good S (replica st2) f" by simp
    then obtain c m c' m' where sc: "fs_lookup S f = Some (File c m)"
      and rc: "fs_lookup (replica st2) f = Some (File c' m')"
      and dg: "file_digest c' = file_digest c"
      by (auto simp: good_def)
    from rc have v2: "view (replica st2) f = Some (File c' m')" by (simp add: view_File_iff)
    from sc have vs: "view S f = Some (File c m)" by (simp add: view_File_iff)
    from g02 [unfolded grows_def, rule_format, of f] v2 vs
    have "view (replica st) f = Some (File c' m') \<or> (c' = c \<and> m' = m)" by auto
    then have orig: "(c' = c \<and> m' = m) \<or> fs_lookup (replica st) f = Some (File c' m')"
      by (auto simp: view_File_iff)
    from kept [OF s] v2 have "fs_lookup (replica st') f = Some (File c' m')"
      by (simp add: view_File_iff)
    with sc dg orig show ?thesis by blast
  qed
  have C: "grows_at (view S f) (view (replica st) f) (view (replica st') f)"
    if "f \<noteq> []" "path_isfile S f" "last f \<noteq> ?ln" for f
  proof -
    from src [OF that] have "sf f \<noteq> None" by simp
    from kept [OF this] g02 [unfolded grows_iff, rule_format, of f] show ?thesis by simp
  qed
  from A B C src show ?thesis by blast
qed





lemma sync_file_unreadable:
  assumes "n \<noteq> ln" and "u (d @ [n])"
  shows "sync_file u S ln d n (st, sf) =
           Inl (FileNotFoundError,
                if path_exists (replica st) (d @ [n])
                then st\<lparr>hash_calls := hash_calls st + 1, hashed := hashed st @ [d @ [n]]\<rparr>
                else st)"
  using assms
  by (simp add: sync_file_def Let_def copy_and_log_def on_replica_def shutil_copy2_def
        open_read_def hash_file_def calculate_hash_def)

lemma pass_stops_at_unreadable:
  assumes roots: "plain_roots sd rd"
    and name: "n \<noteq> os_path_basename lf" and fault: "u (d @ [n])"
    and walk: "os_walk S True = w1 @ (d, dns, fns1 @ n # fns2) # w2"
    and root: "ensure_dir pf [] st = Inr st0"
    and before: "for_each (phase1_dir pf u S (os_path_basename lf)) w1 (st0, Map.empty) =
                   Inr (st1, sf1)"
    and dir: "ensure_dir pf d st1 = Inr st2"
    and files: "for_each (sync_file u S (os_path_basename lf) d) fns1 (st2, sf1) = Inr (st3, sf3)"
  shows "sync_folders pf u S sd rd lf st =
           Inl (FileNotFoundError,
                if path_exists (replica st3) (d @ [n])
                then st3\<lparr>hash_calls := hash_calls st3 + 1, hashed := hashed st3 @ [d @ [n]]\<rparr>
                else st3)"
proof -
  let ?ln = "os_path_basename lf"
  have "for_each (sync_file u S ?ln d) (fns1 @ n # fns2) (st2, sf1) =
          Inl (FileNotFoundError,
               if path_exists (replica st3) (d @ [n])
               then st3\<lparr>hash_calls := hash_calls st3 + 1, hashed := hashed st3 @ [d @ [n]]\<rparr>
               else st3)"
    by (simp only: for_each_append files sum.case for_each.simps
          sync_file_unreadable [of n "os_path_basename lf" u d, OF name fault])
  then have "phase1_dir pf u S ?ln (d, dns, fns1 @ n # fns2) (st1, sf1) =
          Inl (FileNotFoundError,
               if path_exists (replica st3) (d @ [n])
               then st3\<lparr>hash_calls := hash_calls st3 + 1, hashed := hashed st3 @ [d @ [n]]\<rparr>
               else st3)"
    by (simp only: phase1_dir_def prod.case dir sum.case)
  then have "for_each (phase1_dir pf u S ?ln) (os_walk S True) (st0, Map.empty) =
          Inl (FileNotFoundError,
               if path_exists (replica st3) (d @ [n])
               then st3\<lparr>hash_calls := hash_calls st3 + 1, hashed := hashed st3 @ [d @ [n]]\<rparr>
               else st3)"
    by (simp only: walk for_each_append before sum.case for_each.simps)
  with roots root show ?thesis
    by (simp only: sync_folders_def not_True_eq_False if_False sum.case simp_thms)
qed

text \<open>
  Claim C5, as the code has it: nothing in \<^verbatim>\<open>sync_folders\<close> catches an exception. When a
  file of the source, not named like the log file, cannot be read during the pass, the
  call raises, whatever the other entries of the two trees are. It raises at that file:
  when the walk over the source reaches the file after the entries \<open>w1\<close> and, in the
  directory of the file, after the files \<open>fns1\<close>, and these have been processed without
  an exception, the state at the exception is the state that they have left (with one
  more fingerprint asked for, if the replica holds an entry at the path of the file).
  The files \<open>fns2\<close> and the entries \<open>w2\<close> that follow in the walk are not processed, and
  neither the second walk nor the pruning of the replica takes place.
\<close>

theorem unreadable_file_aborts_pass:
  assumes "plain_roots source_folder replica_folder"
    and "fs_lookup source (d @ [n]) = Some (File c m)"
    and "n \<noteq> os_path_basename log_file"
    and "unreadable (d @ [n])"
  shows "(\<exists>e st'. sync_folders pf unreadable source source_folder replica_folder log_file st =
                     Inl (e, st')) \<and>
         (\<forall>w1 dns fns1 fns2 w2 st0 st1 sf1 st2 st3 sf3.
            os_walk source True = w1 @ (d, dns, fns1 @ n # fns2) # w2 \<and>
            ensure_dir pf [] st = Inr st0 \<and>
            for_each (phase1_dir pf unreadable source (os_path_basename log_file)) w1
              (st0, Map.empty) = Inr (st1, sf1) \<and>
            ensure_dir pf d st1 = Inr st2 \<and>
            for_each (sync_file unreadable source (os_path_basename log_file) d) fns1
              (st2, sf1) = Inr (st3, sf3) \<longrightarrow>
            sync_folders pf unreadable source source_folder replica_folder log_file st =
              Inl (FileNotFoundError,
                   if path_exists (replica st3) (d @ [n])
                   then st3\<lparr>hash_calls := hash_calls st3 + 1,
                            hashed := hashed st3 @ [d @ [n]]\<rparr>
                   else st3))"
proof (intro conjI allI impI)
  show "\<exists>e st'. sync_folders pf unreadable source source_folder replica_folder log_file st =
                  Inl (e, st')"
  proof (cases "sync_folders pf unreadable source source_folder replica_folder log_file st")
    case (Inl x)
    then show ?thesis by (cases x) simp
  next
    case (Inr st')
    from assms(2) have "path_isfile source (d @ [n])" by (simp add: path_isfile_iff)
    with mirror_lemma [OF Inr] assms(3,4) have False by force
    then show ?thesis ..
  qed
next
  fix w1 dns fns1 fns2 w2 st0 st1 sf1 st2 st3 sf3
  assume "os_walk source True = w1 @ (d, dns, fns1 @ n # fns2) # w2 \<and>
            ensure_dir pf [] st = Inr st0 \<and>
            for_each (phase1_dir pf unreadable source (os_path_basename log_file)) w1
              (st0, Map.empty) = Inr (st1, sf1) \<and>
            ensure_dir pf d st1 = Inr st2 \<and>
            for_each (sync_file unreadable source (os_path_basename log_file) d) fns1
              (st2, sf1) = Inr (st3, sf3)"
  with pass_stops_at_unreadable [where u = unreadable and d = d and n = n, OF assms(1,3,4)]
  show "sync_folders pf unreadable source source_folder replica_folder log_file st =
              Inl (FileNotFoundError,
                   if path_exists (replica st3) (d @ [n])
                   then st3\<lparr>hash_calls := hash_calls st3 + 1,
                            hashed := hashed st3 @ [d @ [n]]\<rparr>
                   else st3)"
    by blast
qed

lemma unreadable_b_steps:
  "os_walk ex_source True =
     [([], [''sub''], [''a.txt''])] @ ([''sub''], [], [] @ ''b.txt'' # []) # [] \<and>
   ensure_dir False [] (fresh None) =
     Inr \<lparr>replica = Some (Dir []), log = [DirCreated []], hash_calls = 0, hashed = []\<rparr> \<and>
   for_each (phase1_dir False (\<lambda>p. p = [''sub'', ''b.txt'']) ex_source
               (os_path_basename ''/data/sync.log''))
     [([], [''sub''], [''a.txt''])]
     (\<lparr>replica = Some (Dir []), log = [DirCreated []], hash_calls = 0, hashed = []\<rparr>, Map.empty) =
     Inr (\<lparr>replica = Some (Dir [(''a.txt'', File (bytes_of ''hello'') 10)]),
           log = [DirCreated [], FileCopied [''a.txt'']], hash_calls = 0, hashed = []\<rparr>,
          [[''a.txt''] \<mapsto> [''a.txt'']]) \<and>
   ensure_dir False [''sub'']
     \<lparr>replica = Some (Dir [(''a.txt'', File (bytes_of ''hello'') 10)]),
      log = [DirCreated [], FileCopied [''a.txt'']], hash_calls = 0, hashed = []\<rparr> =
     Inr \<lparr>replica = Some (Dir [(''a.txt'', File (bytes_of ''hello'') 10), (''sub'', Dir [])]),
          log = [DirCreated [], FileCopied [''a.txt''], DirCreated [''sub'']],
          hash_calls = 0, hashed = []\<rparr>"
  by (simp add: ex_source_def os_walk_def dirnames_def filenames_def fresh_def ensure_dir_def
        path_exists_def fs_lookup_def on_replica_def os_makedirs.simps os_mkdir_def
        fs_alter_def mkdir_entry_def logging_info_def phase1_dir_def sync_file_def
        os_path_basename_def bytes_of_def copy_and_log_def shutil_copy2_def open_read_def
        path_isdir_def write_entry_def Let_def)

theorem unreadable_file_aborts_pass_witness:
  "plain_roots ''/data/src'' ''/data/src_sync'' \<and>
   fs_lookup ex_source ([''sub''] @ [''b.txt'']) = Some (File (bytes_of ''world'') 20) \<and>
   ''b.txt'' \<noteq> os_path_basename ''/data/sync.log'' \<and>
   sync_folders False (\<lambda>p. p = [''sub'', ''b.txt'']) ex_source ''/data/src'' ''/data/src_sync''
     ''/data/sync.log'' (fresh None) =
     Inl (FileNotFoundError,
          \<lparr>replica = Some (Dir [(''a.txt'', File (bytes_of ''hello'') 10), (''sub'', Dir [])]),
           log = [DirCreated [], FileCopied [''a.txt''], DirCreated [''sub'']],
           hash_calls = 0, hashed = []\<rparr>)"
proof -
  let ?u = "\<lambda>p. p = [''sub'', ''b.txt'']"
  let ?st3 = "\<lparr>replica = Some (Dir [(''a.txt'', File (bytes_of ''hello'') 10), (''sub'', Dir [])]),
           log = [DirCreated [], FileCopied [''a.txt''], DirCreated [''sub'']],
           hash_calls = 0, hashed = []\<rparr>"
  have p: "plain_roots ''/data/src'' ''/data/src_sync''"
    by (simp add: plain_roots_def plain_root_def)
  have a: "fs_lookup ex_source ([''sub''] @ [''b.txt'']) = Some (File (bytes_of ''world'') 20)"
    by (simp add: fs_lookup_def ex_source_def)
  have b: "''b.txt'' \<noteq> os_path_basename ''/data/sync.log''"
    by (simp add: os_path_basename_def)
  have u: "?u ([''sub''] @ [''b.txt''])" by simp
  have e: "\<not> path_exists (replica ?st3) ([''sub''] @ [''b.txt''])"
    by (simp add: path_exists_def fs_lookup_def)
  from unreadable_file_aborts_pass
         [where unreadable = ?u and pf = False and st = "fresh None"
            and log_file = "''/data/sync.log''", OF p a b u,
          THEN conjunct2, rule_format,
          of "[([], [''sub''], [''a.txt''])]" "[]" "[]" "[]" "[]" _ _ _ ?st3 ?st3]
       unreadable_b_steps e
  have "sync_folders False ?u ex_source ''/data/src'' ''/data/src_sync''
     ''/data/sync.log'' (fresh None) = Inl (FileNotFoundError, ?st3)"
    by simp
  with p a b show ?thesis by simp
qed

section \<open>The decision for a single file\<close>

lemma alter_write_file:
  "lookup t p = Some (File c' m') \<Longrightarrow> p \<noteq> [] \<Longrightarrow> \<exists>t'. alter (write_entry c m) t p = Inr t'"
proof (induction "write_entry c m" t p rule: alter.induct)
  case (3 es x)
  then show ?case by (simp add: write_entry_def split: option.splits)
next
  case (4 es x y ys)
  from 4(2) obtain t0 where t0: "map_of es x = Some t0" and l: "lookup t0 (y # ys) = Some (File c' m')"
    by (auto split: option.splits)
  from 4(1) [OF t0 l] obtain t1 where "alter (write_entry c m) t0 (y # ys) = Inr t1" by auto
  with t0 show ?case by simp
qed simp_all

lemma fs_write_file:
  assumes "fs_lookup r p = Some (File c' m')" and "p \<noteq> []"
  shows "\<exists>r'. fs_alter (write_entry c m) r p = Inr r'"
proof -
  from assms(1) obtain t where r: "r = Some t" and l: "lookup t p = Some (File c' m')"
    by (auto simp: fs_lookup_def split: option.splits)
  from alter_write_file [OF l assms(2), of c m] obtain t' where
    "alter (write_entry c m) t p = Inr t'" by blast
  with r assms(2) show ?thesis by (auto simp: fs_alter_def split: list.splits)
qed

text \<open>Overwriting an existing replica file with a readable source file succeeds.\<close>

lemma copy_and_log_succeeds:
  assumes s: "fs_lookup S f = Some (File c m)" and u: "\<not> u f"
    and r: "fs_lookup (replica st) f = Some (File c' m')" and f: "f \<noteq> []"
  shows "\<exists>st'. copy_and_log u S f entry st = Inr st'"
proof -
  from r have nd: "\<not> path_isdir (replica st) f" by (simp add: path_isdir_def)
  from s u have rd: "open_read u S f = Inr (c, m)" by (simp add: open_read_def)
  from fs_write_file [OF r f, of c m] obtain r' where
    "fs_alter (write_entry c m) (replica st) f = Inr r'" by blast
  with nd rd show ?thesis
    by (simp add: copy_and_log_def on_replica_def shutil_copy2_def)
qed

text \<open>
  The step of the first walk for one file whose replica counterpart is a regular file:
  two fingerprints are computed, and the replica file is overwritten, and "File updated"
  logged, if and only if they differ.
\<close>

lemma sync_file_existing:
  assumes n: "filename \<noteq> log_name"
    and s: "fs_lookup source (dirpath @ [filename]) = Some (File c m)"
    and u: "\<not> unreadable (dirpath @ [filename])"
    and r: "fs_lookup (replica st) (dirpath @ [filename]) = Some (File c' m')"
  shows "\<exists>st'. sync_file unreadable source log_name dirpath filename (st, source_files) =
                 Inr (st', source_files(dirpath @ [filename] \<mapsto> dirpath @ [filename])) \<and>
           hash_calls st' = hash_calls st + 2 \<and>
           (file_digest c = file_digest c' \<longrightarrow>
              replica st' = replica st \<and> log st' = log st) \<and>
           (file_digest c \<noteq> file_digest c' \<longrightarrow>
              fs_lookup (replica st') (dirpath @ [filename]) = Some (File c m) \<and>
              log st' = log st @ [FileUpdated (dirpath @ [filename])])"
proof -
  let ?f = "dirpath @ [filename]"
  let ?st1 = "st\<lparr>hash_calls := hash_calls st + 1, hashed := hashed st @ [?f]\<rparr>"
  let ?st2 = "?st1\<lparr>hash_calls := hash_calls ?st1 + 1, hashed := hashed ?st1 @ [?f]\<rparr>"
  from r have ex: "path_exists (replica st) ?f" by (simp add: path_exists_def)
  from s u have h1: "hash_file unreadable source ?f st = Inr (file_digest c, ?st1)"
    by (simp add: hash_file_def calculate_hash_def open_read_def)
  from r have h2: "hash_file no_faults (replica ?st1) ?f ?st1 = Inr (file_digest c', ?st2)"
    by (simp add: hash_file_def calculate_hash_def open_read_def no_faults_def)
  show ?thesis
  proof (cases "file_digest c = file_digest c'")
    case True
    with n ex h1 h2 show ?thesis
      by (simp add: sync_file_def Let_def)
  next
    case False
    from r have r2: "fs_lookup (replica ?st2) ?f = Some (File c' m')" by simp
    from copy_and_log_succeeds
           [where u = unreadable and S = source and f = "?f" and st = "?st2"
              and entry = FileUpdated, OF s u r2]
    obtain st' where
      c: "copy_and_log unreadable source ?f FileUpdated ?st2 = Inr st'" by auto
    from r2 have nd: "view (replica ?st2) ?f \<noteq> Some (Dir [])" by (simp add: view_def)
    from copy_and_log_view [OF c _ nd] s
    have "view (replica st') ?f = Some (File c m)" "log st' = log st @ [FileUpdated ?f]"
      "hash_calls st' = hash_calls st + 2"
      by auto
    with n ex h1 h2 c False show ?thesis
      by (simp add: sync_file_def Let_def view_File_iff)
  qed
qed









section \<open>The code and the naive procedure\<close>




lemma logging_info_same: "same a b \<Longrightarrow> same (logging_info x a) (logging_info x b)"
  by (simp add: same_def logging_info_def)

















section \<open>The replica root\<close>

lemma outcomes_bind:
  assumes "outcomes P Q r" and "\<And>a. Q a \<Longrightarrow> outcomes P Q' (k a)"
  shows "outcomes P Q' (case r of Inl err \<Rightarrow> Inl err | Inr a \<Rightarrow> k a)"
  using assms by (cases r) (auto simp: outcomes_def)

lemma for_each_outcomes:
  assumes "Q s" and "\<And>x a. x \<in> set xs \<Longrightarrow> Q a \<Longrightarrow> outcomes P Q (body x a)"
  shows "outcomes P Q (for_each body xs s)"
  using assms
proof (induction xs arbitrary: s)
  case Nil
  then show ?case by (simp add: outcomes_def)
next
  case (Cons x xs)
  have "outcomes P Q (body x s)" using Cons.prems by simp
  moreover have "outcomes P Q (for_each body xs a)" if "Q a" for a
    using Cons.IH [OF that] Cons.prems(2) by simp
  ultimately show ?case unfolding for_each.simps by (rule outcomes_bind)
qed

















lemma ensure_root_missing:
  "replica st = None \<Longrightarrow>
     ensure_dir pf [] st =
       (if pf then Inl (NotADirectoryError, st)
        else Inr (st\<lparr>replica := Some (Dir []), log := log st @ [DirCreated []]\<rparr>))"
  by (simp add: ensure_dir_def path_exists_def fs_lookup_def on_replica_def
        os_makedirs.simps [of pf None "[]"] os_mkdir_def fs_alter_def mkdir_entry_def
        logging_info_def)


lemma outcomes_state:
  "outcomes P P res \<Longrightarrow> P (outcome_state res)"
  by (auto simp: outcomes_def outcome_state_def split: sum.splits prod.splits)


text \<open>
  The creation of a missing replica root fails when a regular file is in the place of
  its parent: the call raises, and has neither created nor logged anything.
\<close>

lemma root_creation_fails:
  "plain_roots sd rd \<Longrightarrow> replica st = None \<Longrightarrow>
     sync_folders True u S sd rd lf st = Inl (NotADirectoryError, st)"
  by (simp add: sync_folders_def ensure_root_missing)





section \<open>The replica stays a tree\<close>

lemma os_makedirs_wf: "os_makedirs pf r p = Inr r' \<Longrightarrow> wf_fs r \<Longrightarrow> wf_fs r'"
proof (induction pf r p arbitrary: r' rule: os_makedirs.induct)
  case (1 pf r p)
  show ?case
  proof (cases "p \<noteq> [] \<and> \<not> path_exists r (butlast p)")
    case False
    with 1(2) have "os_mkdir r p = Inr r'"
      by (subst (asm) os_makedirs.simps) (simp split: if_splits)
    with 1(3) show ?thesis by (rule os_mkdir_wf [rotated])
  next
    case True
    show ?thesis
    proof (cases "os_makedirs pf r (butlast p)")
      case (Inr r1)
      with True 1(2) have m: "os_mkdir r1 p = Inr r'"
        by (subst (asm) os_makedirs.simps) simp
      from 1(1) [OF True Inr 1(3)] have "wf_fs r1" .
      with m show ?thesis by (rule os_mkdir_wf)
    next
      case (Inl e)
      with True 1(2) have "os_mkdir r p = Inr r'"
        by (subst (asm) os_makedirs.simps) (simp split: if_splits)
      with 1(3) show ?thesis by (rule os_mkdir_wf [rotated])
    qed
  qed
qed

lemma shutil_copy2_wf:
  "shutil_copy2 u S sp r dp = Inr r' \<Longrightarrow> dp \<noteq> [] \<Longrightarrow> wf_fs r \<Longrightarrow> wf_fs r'"
  by (auto simp: shutil_copy2_def Let_def split: sum.splits if_splits intro: write_wf)

lemma on_replica_wf:
  assumes "wf_state st" and "\<And>r'. opn (replica st) = Inr r' \<Longrightarrow> wf_fs r'"
  shows "outcomes wf_state wf_state (on_replica opn st)"
  using assms by (auto simp: on_replica_def outcomes_def wf_state_def split: sum.splits)

lemma logging_info_wf: "wf_state st \<Longrightarrow> wf_state (logging_info x st)"
  by (simp add: wf_state_def logging_info_def)

lemma ensure_dir_wf:
  assumes "wf_state st"
  shows "outcomes wf_state wf_state (ensure_dir pf d st)"
proof (cases "path_exists (replica st) d")
  case True
  with assms show ?thesis by (simp add: ensure_dir_def outcomes_def)
next
  case False
  have "outcomes wf_state wf_state (on_replica (\<lambda>r. os_makedirs pf r d) st)"
    using assms os_makedirs_wf [of pf "replica st" d]
    by (intro on_replica_wf) (auto simp: wf_state_def)
  then have "outcomes wf_state wf_state
      (case on_replica (\<lambda>r. os_makedirs pf r d) st of Inl err \<Rightarrow> Inl err
       | Inr st' \<Rightarrow> Inr (logging_info (DirCreated d) st'))"
    by (rule outcomes_bind) (simp add: outcomes_def logging_info_wf)
  with False show ?thesis by (simp add: ensure_dir_def)
qed

lemma copy_and_log_wf:
  assumes "wf_state st" and "f \<noteq> []"
  shows "outcomes wf_state wf_state (copy_and_log u S f entry st)"
proof -
  have "outcomes wf_state wf_state (on_replica (\<lambda>r. shutil_copy2 u S f r f) st)"
    using assms shutil_copy2_wf [of u S f "replica st" f]
    by (intro on_replica_wf) (auto simp: wf_state_def)
  then show ?thesis
    unfolding copy_and_log_def
    by (rule outcomes_bind) (simp add: outcomes_def logging_info_wf)
qed

lemma sync_file_wf:
  assumes "wf_state (fst s)"
  shows "outcomes wf_state (\<lambda>s'. wf_state (fst s')) (sync_file u S ln d n s)"
proof -
  obtain st sf where s: "s = (st, sf)" by (cases s)
  let ?f = "d @ [n]"
  have cp: "outcomes wf_state (\<lambda>s'. wf_state (fst s'))
        (case copy_and_log u S ?f entry stx of Inl err \<Rightarrow> Inl err
         | Inr st' \<Rightarrow> Inr (st', sf'))" if "wf_state stx" for entry stx and sf' :: source_files
    by (rule outcomes_bind [OF copy_and_log_wf [OF that]]) (simp_all add: outcomes_def)
  have w: "wf_state st" using assms s by simp
  show ?thesis
  proof (cases "n = ln \<or> \<not> path_exists (replica st) ?f")
    case True
    with w s cp [where stx = st and entry = FileCopied and sf' = "sf(?f \<mapsto> ?f)"]
    show ?thesis by (auto simp: sync_file_def Let_def outcomes_def)
  next
    case False
    show ?thesis
    proof (cases "hash_file u S ?f st")
      case (Inl x)
      with False w s show ?thesis
        by (auto simp: sync_file_def Let_def outcomes_def hash_file_def wf_state_def
                 split: sum.splits)
    next
      case h1: (Inr a)
      obtain hs st1 where a: "a = (hs, st1)" by (cases a)
      from h1 a have st1: "st1 = st\<lparr>hash_calls := hash_calls st + 1, hashed := hashed st @ [?f]\<rparr>"
        by (auto simp: hash_file_def Let_def split: sum.splits)
      show ?thesis
      proof (cases "hash_file no_faults (replica st1) ?f st1")
        case (Inl x)
        with False w s h1 a st1 show ?thesis
          by (auto simp: sync_file_def Let_def outcomes_def hash_file_def wf_state_def
                   split: sum.splits)
      next
        case h2: (Inr b)
        obtain hr st2 where b: "b = (hr, st2)" by (cases b)
        from h2 b st1 have st2: "st2 = st1\<lparr>hash_calls := hash_calls st1 + 1, hashed := hashed st1 @ [?f]\<rparr>"
          by (auto simp: hash_file_def Let_def split: sum.splits)
        with st1 w have w2: "wf_state st2" by (simp add: wf_state_def)
        from False s h1 a h2 b w2 cp [where stx = st2 and entry = FileUpdated and sf' = "sf(?f \<mapsto> ?f)"]
        show ?thesis by (simp add: sync_file_def Let_def outcomes_def)
      qed
    qed
  qed
qed

lemma phase1_dir_wf:
  assumes "wf_state (fst s)"
  shows "outcomes wf_state (\<lambda>s'. wf_state (fst s')) (phase1_dir pf u S ln x s)"
proof -
  obtain d dns fns where x: "x = (d, dns, fns)" by (cases x)
  obtain st sf where s: "s = (st, sf)" by (cases s)
  have "outcomes wf_state (\<lambda>s'. wf_state (fst s'))
     (case ensure_dir pf d st of Inl err \<Rightarrow> Inl err
      | Inr st' \<Rightarrow> for_each (sync_file u S ln d) fns (st', sf))"
  proof (rule outcomes_bind [OF ensure_dir_wf])
    show "wf_state st" using assms s by simp
  next
    fix a assume "wf_state a"
    then show "outcomes wf_state (\<lambda>s'. wf_state (fst s'))
        (for_each (sync_file u S ln d) fns (a, sf))"
      by (intro for_each_outcomes sync_file_wf) simp_all
  qed
  then show ?thesis by (simp add: phase1_dir_def x s)
qed

lemma restore_file_wf:
  assumes "wf_state st"
  shows "outcomes wf_state wf_state (restore_file u S d n st)"
  using assms copy_and_log_wf [OF assms, of "d @ [n]" u S FileRestored]
  by (simp add: restore_file_def Let_def outcomes_def)

lemma phase2_dir_wf:
  assumes "wf_state st"
  shows "outcomes wf_state wf_state (phase2_dir pf u S x st)"
proof -
  obtain d dns fns where x: "x = (d, dns, fns)" by (cases x)
  have "outcomes wf_state wf_state
     (case ensure_dir pf d st of Inl err \<Rightarrow> Inl err
      | Inr st' \<Rightarrow> for_each (restore_file u S d) fns st')"
    by (rule outcomes_bind [OF ensure_dir_wf [OF assms]])
       (intro for_each_outcomes restore_file_wf)
  then show ?thesis by (simp add: phase2_dir_def x)
qed

lemma prune_file_wf:
  assumes "wf_state st"
  shows "outcomes wf_state wf_state (prune_file sf d n st)"
proof -
  have "outcomes wf_state wf_state (on_replica (\<lambda>r. os_remove r (d @ [n])) st)"
    using assms os_remove_wf [of "replica st" "d @ [n]"]
    by (intro on_replica_wf) (auto simp: wf_state_def)
  then have "outcomes wf_state wf_state
      (case on_replica (\<lambda>r. os_remove r (d @ [n])) st of Inl err \<Rightarrow> Inl err
       | Inr st' \<Rightarrow> Inr (logging_info (FileDeleted (d @ [n])) st'))"
    by (rule outcomes_bind) (simp add: outcomes_def logging_info_wf)
  with assms show ?thesis by (simp add: prune_file_def Let_def outcomes_def)
qed

lemma prune_dir_wf:
  assumes "wf_state st"
  shows "outcomes wf_state wf_state (prune_dir S d n st)"
proof -
  have "outcomes wf_state wf_state (on_replica (\<lambda>r. shutil_rmtree r (d @ [n])) st)"
    using assms shutil_rmtree_wf [of "replica st" "d @ [n]"]
    by (intro on_replica_wf) (auto simp: wf_state_def)
  then have "outcomes wf_state wf_state
      (case on_replica (\<lambda>r. shutil_rmtree r (d @ [n])) st of Inl err \<Rightarrow> Inl err
       | Inr st' \<Rightarrow> Inr (logging_info (DirDeleted (d @ [n])) st'))"
    by (rule outcomes_bind) (simp add: outcomes_def logging_info_wf)
  with assms show ?thesis by (simp add: prune_dir_def Let_def outcomes_def)
qed

lemma phase3_dir_wf:
  assumes "wf_state st"
  shows "outcomes wf_state wf_state (phase3_dir S sf x st)"
proof -
  obtain d dns fns where x: "x = (d, dns, fns)" by (cases x)
  have "outcomes wf_state wf_state
     (case for_each (prune_file sf d) fns st of Inl err \<Rightarrow> Inl err
      | Inr st' \<Rightarrow> for_each (prune_dir S d) dns st')"
  proof (rule outcomes_bind [where Q = wf_state])
    show "outcomes wf_state wf_state (for_each (prune_file sf d) fns st)"
      using assms by (intro for_each_outcomes prune_file_wf)
  next
    fix a assume "wf_state a"
    then show "outcomes wf_state wf_state (for_each (prune_dir S d) dns a)"
      by (intro for_each_outcomes prune_dir_wf)
  qed
  then show ?thesis by (simp add: phase3_dir_def x)
qed

text \<open>
  The pass keeps the replica a tree that a file system can hold, in every outcome.
\<close>

lemma sync_folders_wf:
  assumes "wf_fs (replica st)"
  shows "wf_fs (replica (outcome_state (sync_folders pf u S sd rd lf st)))"
proof -
  let ?ln = "os_path_basename lf"
  from assms have w: "wf_state st" by (simp add: wf_state_def)
  have p23: "outcomes wf_state wf_state
     (case for_each (phase2_dir pf u S) (os_walk S True) st1 of
        Inl err \<Rightarrow> Inl err
      | Inr st2 \<Rightarrow> for_each (phase3_dir S sf) (os_walk (replica st2) False) st2)"
    if "wf_state st1" for st1 sf
  proof (rule outcomes_bind [where Q = wf_state])
    show "outcomes wf_state wf_state (for_each (phase2_dir pf u S) (os_walk S True) st1)"
      using that by (intro for_each_outcomes phase2_dir_wf)
  next
    fix b assume "wf_state b"
    then show "outcomes wf_state wf_state
        (for_each (phase3_dir S sf) (os_walk (replica b) False) b)"
      by (intro for_each_outcomes phase3_dir_wf)
  qed
  have p123: "outcomes wf_state wf_state
     (case for_each (phase1_dir pf u S ?ln) (os_walk S True) (st0, Map.empty) of
        Inl err \<Rightarrow> Inl err
      | Inr (st1, source_files) \<Rightarrow>
     (case for_each (phase2_dir pf u S) (os_walk S True) st1 of
        Inl err \<Rightarrow> Inl err
      | Inr st2 \<Rightarrow>
          for_each (phase3_dir S source_files) (os_walk (replica st2) False) st2))"
    if "wf_state st0" for st0
  proof (rule outcomes_bind [where Q = "\<lambda>s'. wf_state (fst s')"])
    show "outcomes wf_state (\<lambda>s'. wf_state (fst s'))
       (for_each (phase1_dir pf u S ?ln) (os_walk S True) (st0, Map.empty))"
      using that by (intro for_each_outcomes phase1_dir_wf) simp_all
  next
    fix a :: "sync_state \<times> source_files"
    assume a: "wf_state (fst a)"
    obtain st1 sf where a1: "a = (st1, sf)" by (cases a)
    from p23 [of st1 sf] a a1
    show "outcomes wf_state wf_state
       (case a of (st1, source_files) \<Rightarrow>
       (case for_each (phase2_dir pf u S) (os_walk S True) st1 of
          Inl err \<Rightarrow> Inl err
        | Inr st2 \<Rightarrow>
            for_each (phase3_dir S source_files) (os_walk (replica st2) False) st2))"
      by simp
  qed
  have "outcomes wf_state wf_state
     (case ensure_dir pf [] st of
        Inl err \<Rightarrow> Inl err
      | Inr st0 \<Rightarrow>
     (case for_each (phase1_dir pf u S ?ln) (os_walk S True) (st0, Map.empty) of
        Inl err \<Rightarrow> Inl err
      | Inr (st1, source_files) \<Rightarrow>
     (case for_each (phase2_dir pf u S) (os_walk S True) st1 of
        Inl err \<Rightarrow> Inl err
      | Inr st2 \<Rightarrow>
          for_each (phase3_dir S source_files) (os_walk (replica st2) False) st2)))"
    by (rule outcomes_bind [OF ensure_dir_wf [OF w]]) (rule p123)
  with w have "outcomes wf_state wf_state (sync_folders pf u S sd rd lf st)"
    by (simp add: sync_folders_def outcomes_def)
  then have "wf_state (outcome_state (sync_folders pf u S sd rd lf st))" by (rule outcomes_state)
  then show ?thesis by (simp add: wf_state_def)
qed

end
